theory Spec2Isabelle
  imports Main "HOL-Library.Word" "HOL-Library.Code_Target_Numeral"
begin

unbundle bit_operations_syntax

section \<open>Go values: bytes, errors, slices\<close>

text \<open>
  A Go \<open>[]byte\<close> is a list of 8-bit words, a Go \<open>string\<close> a list of characters (bytes).
  Go's \<open>int\<close> is 64 bits wide; every length and offset of the framing code stays far
  below that bound, so it is modelled by \<open>int\<close>. The 16-bit sequence counter of
  \<open>wrapCommandAPDU\<close> is a natural number reduced modulo \<open>2 ^ 16\<close> where Go wraps it.
\<close>

type_synonym byte = "8 word"

text \<open>
  An error value is \<open>ErrMoreData\<close> (the package variable), a message made by
  \<open>errors.New\<close>, the formatted unknown status of \<open>checkFailure\<close>, an error wrapped
  with a message by \<open>errors.Wrap\<close>, or a run-time panic of the Go runtime (an index
  or a slice bound out of range, a division by zero).
\<close>

datatype error =
    ErrMoreData
  | Error string
  | UnknownStatus int
  | Wrap error string
  | PanicIndex
  | PanicSlice
  | PanicDivide

text \<open>
  \<open>s[i]\<close> panics unless \<open>0 \<le> i < len(s)\<close>; \<open>s[a:b]\<close> panics unless
  \<open>0 \<le> a \<le> b\<close> and \<open>b\<close> stays inside the buffer. Buffers are taken with capacity
  equal to their length.
\<close>

definition index :: "'a list \<Rightarrow> int \<Rightarrow> error + 'a" where
  "index s i = (if 0 \<le> i \<and> i < int (length s) then Inr (s ! nat i) else Inl PanicIndex)"

definition slice :: "'a list \<Rightarrow> int \<Rightarrow> int \<Rightarrow> error + 'a list" where
  "slice s a b =
     (if 0 \<le> a \<and> a \<le> b \<and> b \<le> int (length s)
      then Inr (take (nat (b - a)) (drop (nat a) s))
      else Inl PanicSlice)"

text \<open>\<open>binary.BigEndian.PutUint16\<close> and \<open>binary.BigEndian.Uint16\<close> on a two-byte buffer.\<close>

definition PutUint16 :: "nat \<Rightarrow> byte list" where
  "PutUint16 v = [of_nat (v div 256 mod 256), of_nat (v mod 256)]"

definition Uint16 :: "byte list \<Rightarrow> nat" where
  "Uint16 b = unat (b ! 0) * 256 + unat (b ! 1)"

section \<open>Status words (apdu.go, checkFailure)\<close>

text \<open>
  The \<open>switch\<close> of \<open>checkFailure\<close>, case by case. A Go case does not fall through:
  the empty body of \<open>case 0x6a84\<close> leaves the switch, and the function ends in
  \<open>return nil\<close>.
\<close>

definition checkFailure :: "int \<Rightarrow> error option" where
  "checkFailure code =
     (if code \<noteq> 0x9000 \<and> (code AND 0xFF00) \<noteq> 0x6100 then
        (if code = 0x6484 then Some (Error ''Are you using the correct targetId?'')
         else if code = 0x6982 then
           Some (Error ''Have you uninstalled the existing CA with resetCustomCA first?'')
         else if code = 0x6985 then Some (Error ''Operation denied by the user'')
         else if code = 0x6a80 then Some (Error ''Level is below safety watermark'')
         else if code = 0x6a84 then None
         else if code = 0x6a85 then Some (Error ''Not enough space?'')
         else if code = 0x6a83 then
           Some (Error ''Maybe this app requires a library to be installed first?'')
         else if code = 0x6b00 then Some (Error ''Incorrect parameters received P1/P2'')
         else if code = 0x6c00 then Some (Error ''Wrong length'')
         else if code = 0x6c66 then Some (Error ''Operation not allowed'')
         else if code = 0x6d00 then Some (Error ''Unsupported Instruction'')
         else if code = 0x6e00 then
           Some (Error ''Unexpected state of device: verify that the right application is opened?'')
         else if code = 0x6f00 then Some (Error ''Internal technical problem'')
         else if code = 0x917e then Some (Error ''Length of command string invalid'')
         else if code = 0x9405 then Some (Error ''Parse error'')
         else Some (UnknownStatus code))
      else None)"

section \<open>Framing (apdu.go, wrapCommandAPDU and unwrapResponseAPDU)\<close>

text \<open>
  Go's remainder truncates towards zero and panics on a zero divisor; \<open>None\<close> is the
  division panic.
\<close>

definition go_rem :: "int \<Rightarrow> int \<Rightarrow> int option" where
  "go_rem a b = (if b = 0 then None else Some (a - b * (sgn a * sgn b * (\<bar>a\<bar> div \<bar>b\<bar>))))"

text \<open>
  The continuation loop of \<open>wrapCommandAPDU\<close> (\<open>for ; offset != len(command); \<close>). A
  block size of zero would let it run forever, so the loop is a partial function:
  \<open>None\<close> is a run that does not return.
\<close>

partial_function (option) wrap_loop ::
  "byte list \<Rightarrow> byte list \<Rightarrow> int \<Rightarrow> nat \<Rightarrow> int \<Rightarrow> byte list \<Rightarrow> (error + byte list) option"
where
  "wrap_loop channel command packetSize sequenceIdx offset result =
     (if offset \<noteq> int (length command) then
        (let result1 = result @ channel @ [5] @ PutUint16 sequenceIdx;
             sequenceIdx1 = (sequenceIdx + 1) mod 65536;
             blockSize =
               (if int (length command) - offset > packetSize - 3 - 2
                then packetSize - 3 - 2 else int (length command) - offset)
         in case slice command offset (offset + blockSize) of
              Inl e \<Rightarrow> Some (Inl e)
            | Inr chunk \<Rightarrow>
                wrap_loop channel command packetSize sequenceIdx1 (offset + blockSize)
                  (result1 @ chunk))
      else Some (Inr result))"

declare wrap_loop.simps [code]

text \<open>The padding loop (\<open>for ; (len(result) % packetSize) != 0; \<close>).\<close>

partial_function (option) pad_loop :: "byte list \<Rightarrow> int \<Rightarrow> (error + byte list) option"
where
  "pad_loop result packetSize =
     (case go_rem (int (length result)) packetSize of
        None \<Rightarrow> Some (Inl PanicDivide)
      | Some r \<Rightarrow> if r \<noteq> 0 then pad_loop (result @ [0]) packetSize else Some (Inr result))"

declare pad_loop.simps [code]

definition wrapCommandAPDU ::
  "byte list \<Rightarrow> byte list \<Rightarrow> int \<Rightarrow> (error + byte list) option"
where
  "wrapCommandAPDU channel command packetSize =
     (if packetSize < 3 then Some (Inl (Error ''Can't handle less than 3 bytes''))
      else
        (let result = channel @ [5] @ PutUint16 0 @ PutUint16 (length command mod 65536);
             blockSize =
               (if int (length command) > packetSize - 5 - 2
                then packetSize - 5 - 2 else int (length command))
         in case slice command 0 (0 + blockSize) of
              Inl e \<Rightarrow> Some (Inl e)
            | Inr chunk \<Rightarrow>
                (case wrap_loop channel command packetSize 1 (0 + blockSize) (result @ chunk) of
                   None \<Rightarrow> None
                 | Some (Inl e) \<Rightarrow> Some (Inl e)
                 | Some (Inr result1) \<Rightarrow> pad_loop result1 packetSize)))"

text \<open>
  The reassembly loop of \<open>unwrapResponseAPDU\<close> (\<open>for ; len(result) < responseLength; \<close>).
  Every round reads five header bytes, so the offset grows until a slice leaves the
  buffer: the loop always returns.

  In the Go code \<open>result\<close> is a slice of \<open>data\<close>, and \<open>append\<close> writes the next chunk
  into the buffer of \<open>data\<close> itself, at positions before \<open>offset\<close>, which the loop has
  read already; the bytes at and after \<open>offset\<close> are never overwritten, so the value
  returned is that of the pure list computation below.
\<close>

function unwrap_loop ::
  "byte list \<Rightarrow> byte list \<Rightarrow> int \<Rightarrow> int \<Rightarrow> int \<Rightarrow> int \<Rightarrow> byte list \<Rightarrow> error + byte list"
where
  "unwrap_loop channel data packetSize responseLength sequenceIdx offset result =
     (if int (length result) < responseLength then
        (if offset = int (length data) then Inl (Error ''No data'')
         else case slice data offset (offset + 2) of
           Inl e \<Rightarrow> Inl e
         | Inr packedChan \<Rightarrow>
             if packedChan \<noteq> channel then Inl (Error ''Invalid channel'')
             else case index data (offset + 2) of
               Inl e \<Rightarrow> Inl e
             | Inr packedTag \<Rightarrow>
                 if [packedTag] \<noteq> [5] then Inl (Error ''Invalid tag'')
                 else case slice data (offset + 3) (offset + 3 + 2) of
                   Inl e \<Rightarrow> Inl e
                 | Inr seqBytes \<Rightarrow>
                     if int (Uint16 seqBytes) \<noteq> sequenceIdx + 1
                     then Inl (Error ''Invalid sequence'')
                     else
                       (let blockSize =
                              (if responseLength - int (length result) > packetSize - 3 - 2
                               then packetSize - 3 - 2
                               else responseLength - int (length result))
                        in case slice data (offset + 5) (offset + 5 + blockSize) of
                             Inl e \<Rightarrow> Inl e
                           | Inr chunk \<Rightarrow>
                               unwrap_loop channel data packetSize responseLength
                                 (sequenceIdx + 1) (offset + 5 + blockSize) (result @ chunk)))
      else Inr result)"
  by pat_completeness auto
termination
  by (relation "measure (\<lambda>(channel, data, packetSize, responseLength, sequenceIdx, offset, result).
        nat (int (length data) - offset))")
     (auto simp: slice_def split: if_splits)

declare unwrap_loop.simps [simp del]

definition unwrapResponseAPDU :: "byte list \<Rightarrow> byte list \<Rightarrow> int \<Rightarrow> error + byte list" where
  "unwrapResponseAPDU channel data packetSize =
     (if length data = 0 \<or> int (length data) < 5 + 2 + 5 then Inl (Error ''No data'')
      else case slice data 0 2 of
        Inl e \<Rightarrow> Inl e
      | Inr packedChannel \<Rightarrow>
          if packedChannel \<noteq> channel then Inl (Error ''Invalid channel'')
          else case index data 2 of
            Inl e \<Rightarrow> Inl e
          | Inr packedTag \<Rightarrow>
              if [packedTag] \<noteq> [5] then Inl (Error ''Invalid tag'')
              else case slice data 3 5 of
                Inl e \<Rightarrow> Inl e
              | Inr seqBytes \<Rightarrow>
                  if int (Uint16 seqBytes) \<noteq> 0 then Inl (Error ''Invalid sequence'')
                  else case slice data 5 7 of
                    Inl e \<Rightarrow> Inl e
                  | Inr lenBytes \<Rightarrow>
                      (let responseLength = int (Uint16 lenBytes) in
                       if int (length data) < 5 + 2 + responseLength then Inl ErrMoreData
                       else
                         (let blockSize =
                                (if responseLength > packetSize - 5 - 2
                                 then packetSize - 5 - 2 else responseLength)
                          in case slice data 7 (7 + blockSize) of
                               Inl e \<Rightarrow> Inl e
                             | Inr result0 \<Rightarrow>
                                 (case unwrap_loop channel data packetSize responseLength 0
                                         (7 + blockSize) result0 of
                                    Inl e \<Rightarrow> Inl e
                                  | Inr result \<Rightarrow>
                                      (let swOffset = int (length result) - 2 in
                                       case index result swOffset of
                                         Inl e \<Rightarrow> Inl e
                                       | Inr hi \<Rightarrow>
                                           (case index result (swOffset + 1) of
                                              Inl e \<Rightarrow> Inl e
                                            | Inr lo \<Rightarrow>
                                                (case checkFailure
                                                        (push_bit 8 (uint hi) + uint lo) of
                                                   Some err \<Rightarrow> Inl err
                                                 | None \<Rightarrow> slice result 0 swOffset)))))))"

section \<open>Checksummed base 58 (crypto.go)\<close>

text \<open>
  \<open>sha256.Sum256\<close> belongs to the Go standard library and is a parameter \<open>Sum256\<close> of
  the model; it returns an array of 32 bytes, here a 256-bit word, and \<open>digest_bytes\<close>
  is the slice \<open>h[:]\<close> of that array.
\<close>

definition digest_bytes :: "256 word \<Rightarrow> byte list" where
  "digest_bytes h = map (\<lambda>i. ucast (drop_bit (8 * (31 - i)) h)) [0..<32]"

definition alphabet :: string where
  "alphabet = ''123456789ABCDEFGHJKLMNPQRSTUVWXYZabcdefghijkmnopqrstuvwxyz''"

text \<open>
  \<open>big.Int\<close>: \<open>SetBytes\<close> reads a big-endian byte string as a number, \<open>Bytes\<close> gives
  the big-endian bytes of a number without leading zero bytes.
\<close>

definition SetBytes :: "byte list \<Rightarrow> nat" where
  "SetBytes b = foldl (\<lambda>acc x. acc * 256 + unat x) 0 b"

function Bytes :: "nat \<Rightarrow> byte list" where
  "Bytes n = (if n = 0 then [] else Bytes (n div 256) @ [of_nat (n mod 256)])"
  by pat_completeness auto
termination
  by (relation "measure id") auto

declare Bytes.simps [simp del]

text \<open>
  \<open>base58.Encode\<close> of the package \<open>github.com/btcsuite/btcutil/base58\<close>, which
  \<open>encode\<close> calls, is not among the sources. It is modelled as that library works:
  the number held by the bytes, written in base 58 over the alphabet, most significant
  digit first and empty for zero (\<open>b58_digits\<close>), behind one character \<open>'1'\<close> for
  each leading zero byte of the input. Section 4.4 of the specification and the comment
  in \<open>encode\<close> take it to drop the leading zero bytes instead; the two readings
  agree on bytes that start with a non-zero byte.
\<close>

function b58_digits :: "nat \<Rightarrow> string" where
  "b58_digits n = (if n = 0 then [] else b58_digits (n div 58) @ [alphabet ! (n mod 58)])"
  by pat_completeness auto
termination
  by (relation "measure id") auto

declare b58_digits.simps [simp del]

definition base58_Encode :: "byte list \<Rightarrow> string" where
  "base58_Encode b =
     replicate (length (takeWhile (\<lambda>x. x = 0) b)) CHR ''1'' @ b58_digits (SetBytes b)"

text \<open>The two loops of \<open>encode\<close>: counting the leading zero bytes, prepending the ones.\<close>

fun zero_count :: "byte list \<Rightarrow> nat" where
  "zero_count [] = 0"
| "zero_count (b # bs) = (if b = 0 then Suc (zero_count bs) else 0)"

fun prepend_ones :: "nat \<Rightarrow> string \<Rightarrow> string" where
  "prepend_ones 0 encoded = encoded"
| "prepend_ones (Suc i) encoded = prepend_ones i (CHR ''1'' # encoded)"

definition encode :: "(byte list \<Rightarrow> 256 word) \<Rightarrow> byte list \<Rightarrow> string" where
  "encode Sum256 dataBytes =
     (let h = Sum256 dataBytes;
          hash = Sum256 (digest_bytes h);
          checksum = take 4 (digest_bytes hash);
          dataBytes1 = dataBytes @ checksum;
          zeroCount = zero_count dataBytes1;
          encoded = base58_Encode dataBytes1
      in prepend_ones zeroCount encoded)"

definition B58cencode :: "(byte list \<Rightarrow> 256 word) \<Rightarrow> byte list \<Rightarrow> byte list \<Rightarrow> string" where
  "B58cencode Sum256 payload prefix = encode Sum256 (prefix @ payload)"

text \<open>
  \<open>for _, value := range data\<close> over a string walks its runes: the UTF-8 decoding of the
  Go language, where a byte that starts no valid encoding is the rune \<open>U+FFFD\<close> of
  width one. \<open>decode_rune\<close> gives the rune and its width in bytes.
\<close>

definition cont_byte :: "nat \<Rightarrow> bool" where
  "cont_byte b = (0x80 \<le> b \<and> b \<le> 0xBF)"

fun decode_rune :: "nat list \<Rightarrow> nat \<times> nat" where
  "decode_rune [] = (0xFFFD, 0)"
| "decode_rune (b0 # bs) =
     (if b0 < 0x80 then (b0, 1)
      else if 0xC2 \<le> b0 \<and> b0 \<le> 0xDF then
        (case bs of
           b1 # _ \<Rightarrow>
             if cont_byte b1 then ((b0 mod 32) * 64 + b1 mod 64, 2) else (0xFFFD, 1)
         | _ \<Rightarrow> (0xFFFD, 1))
      else if 0xE0 \<le> b0 \<and> b0 \<le> 0xEF then
        (case bs of
           b1 # b2 # _ \<Rightarrow>
             if (if b0 = 0xE0 then 0xA0 else 0x80) \<le> b1
                \<and> b1 \<le> (if b0 = 0xED then 0x9F else 0xBF) \<and> cont_byte b2
             then (((b0 mod 16) * 64 + b1 mod 64) * 64 + b2 mod 64, 3) else (0xFFFD, 1)
         | _ \<Rightarrow> (0xFFFD, 1))
      else if 0xF0 \<le> b0 \<and> b0 \<le> 0xF4 then
        (case bs of
           b1 # b2 # b3 # _ \<Rightarrow>
             if (if b0 = 0xF0 then 0x90 else 0x80) \<le> b1
                \<and> b1 \<le> (if b0 = 0xF4 then 0x8F else 0xBF) \<and> cont_byte b2 \<and> cont_byte b3
             then ((((b0 mod 8) * 64 + b1 mod 64) * 64 + b2 mod 64) * 64 + b3 mod 64, 4)
             else (0xFFFD, 1)
         | _ \<Rightarrow> (0xFFFD, 1))
      else (0xFFFD, 1))"

fun runes_of :: "nat list \<Rightarrow> nat list" where
  "runes_of [] = []"
| "runes_of (b # bs) =
     (case decode_rune (b # bs) of (r, w) \<Rightarrow> r # runes_of (drop (w - 1) bs))"

definition runes :: "string \<Rightarrow> nat list" where
  "runes s = runes_of (map of_char s)"

text \<open>\<open>bytes.IndexByte\<close>: the first position of a byte, or \<open>-1\<close>.\<close>

fun IndexByte :: "byte list \<Rightarrow> byte \<Rightarrow> int" where
  "IndexByte [] c = - 1"
| "IndexByte (b # bs) c =
     (if b = c then 0 else (let i = IndexByte bs c in if i = - 1 then - 1 else i + 1))"

definition alphabetBytes :: "byte list" where
  "alphabetBytes = map of_char alphabet"

fun b58decode_loop :: "nat list \<Rightarrow> nat \<Rightarrow> error + nat" where
  "b58decode_loop [] decimalData = Inr decimalData"
| "b58decode_loop (v # rest) decimalData =
     (let pos = IndexByte alphabetBytes (of_nat v) in
      if pos = - 1 then Inl (Error ''character not found in alphabet'')
      else b58decode_loop rest (decimalData * 58 + nat pos))"

definition b58decode :: "string \<Rightarrow> error + byte list" where
  "b58decode data =
     (case b58decode_loop (runes data) 0 of
        Inl e \<Rightarrow> Inl e
      | Inr decimalData \<Rightarrow> Inr (Bytes decimalData))"

text \<open>The two loops of \<open>decode\<close>: counting the leading \<open>'1'\<close> (byte 49), prepending zeros.\<close>

fun one_count :: "string \<Rightarrow> nat" where
  "one_count [] = 0"
| "one_count (c # cs) = (if of_char c = (49 :: nat) then Suc (one_count cs) else 0)"

fun prepend_zeros :: "nat \<Rightarrow> byte list \<Rightarrow> byte list" where
  "prepend_zeros 0 data = data"
| "prepend_zeros (Suc i) data = prepend_zeros i (0 # data)"

text \<open>
  \<open>decode\<close> returns a pair, as the Go function does: on every error the bytes are the
  empty slice \<open>[]byte{}\<close>.
\<close>

definition decode :: "(byte list \<Rightarrow> 256 word) \<Rightarrow> string \<Rightarrow> byte list \<times> error option" where
  "decode Sum256 encoded =
     (let zeroCount = one_count encoded in
      case b58decode encoded of
        Inl err \<Rightarrow> ([], Some err)
      | Inr dataBytes \<Rightarrow>
          if length dataBytes \<le> 4 then ([], Some (Error ''invalid decode length''))
          else
            (let data = take (length dataBytes - 4) dataBytes;
                 checksum = drop (length dataBytes - 4) dataBytes;
                 data1 = prepend_zeros zeroCount data;
                 h = Sum256 data1;
                 hash = Sum256 (digest_bytes h)
             in if checksum \<noteq> take 4 (digest_bytes hash)
                then ([], Some (Error ''data and checksum don't match''))
                else (data1, None)))"

text \<open>
  \<open>B58cdecode\<close> has one result and no error: it drops the error of \<open>decode\<close>
  (\<open>b58c, _ := decode(payload)\<close>) and slices what \<open>decode\<close> returned.
\<close>

definition B58cdecode :: "(byte list \<Rightarrow> 256 word) \<Rightarrow> string \<Rightarrow> byte list \<Rightarrow> error + byte list" where
  "B58cdecode Sum256 payload prefix =
     (case decode Sum256 payload of
        (b58c, _) \<Rightarrow> slice b58c (int (length prefix)) (int (length b58c)))"

section \<open>Version prefixes (ledger-apps/tezos/tezos-crypto.go)\<close>

definition tz1prefix :: "byte list" where "tz1prefix = [6, 161, 159]"
definition tz2prefix :: "byte list" where "tz2prefix = [6, 161, 161]"
definition tz3prefix :: "byte list" where "tz3prefix = [6, 161, 164]"
definition ktprefix :: "byte list" where "ktprefix = [2, 90, 121]"
definition edskprefix :: "byte list" where "edskprefix = [43, 246, 78, 7]"
definition edsigprefix :: "byte list" where "edsigprefix = [9, 245, 205, 134, 18]"
definition sigprefix :: "byte list" where "sigprefix = [4, 130, 43]"
definition edsk2prefix :: "byte list" where "edsk2prefix = [13, 15, 58, 7]"
definition edpkprefix :: "byte list" where "edpkprefix = [13, 15, 37, 217]"
definition edeskprefix :: "byte list" where "edeskprefix = [7, 90, 60, 179, 41]"
definition branchprefix :: "byte list" where "branchprefix = [1, 52]"
definition chainidprefix :: "byte list" where "chainidprefix = [57, 52, 0]"
definition blockprefix :: "byte list" where "blockprefix = [1]"
definition endorsementprefix :: "byte list" where "endorsementprefix = [2]"
definition genericopprefix :: "byte list" where "genericopprefix = [3]"
definition networkprefix :: "byte list" where "networkprefix = [87, 82, 0]"

definition tezos_prefixes :: "byte list list" where
  "tezos_prefixes =
     [tz1prefix, tz2prefix, tz3prefix, ktprefix, edskprefix, edsigprefix, sigprefix,
      edsk2prefix, edpkprefix, edeskprefix, branchprefix, chainidprefix, blockprefix,
      endorsementprefix, genericopprefix, networkprefix]"

section \<open>Derivation paths (encodeBipPath and DecodeBipPath)\<close>

definition HARDENED :: int where
  "HARDENED = 0x80000000"

definition isDigit :: "char \<Rightarrow> bool" where
  "isDigit c = (48 \<le> (of_char c :: nat) \<and> (of_char c :: nat) \<le> 57)"

text \<open>
  The regular expression \<open>/(\d+)([hH']?)\<close>: a match starts at a slash that a digit
  follows, takes all the digits and then one of \<open>h\<close>, \<open>H\<close>, \<open>'\<close> when it is there;
  the search goes on behind the match. A match is the list of the whole match and
  its two groups.
\<close>

lemma length_dropWhile_tl: "dropWhile P cs = m # r \<Longrightarrow> length r < Suc (length cs)"
  using length_dropWhile_le [of P cs] by simp

lemma length_dropWhile_strict:
  "takeWhile P cs \<noteq> [] \<Longrightarrow> dropWhile P cs = m # r \<Longrightarrow> length r < length cs"
  using arg_cong [OF takeWhile_dropWhile_id [of P cs], of length] by (cases "takeWhile P cs") auto

function matchSections :: "string \<Rightarrow> string list list" where
  "matchSections [] = []"
| "matchSections (c # cs) =
     (if c = CHR ''/'' \<and> takeWhile isDigit cs \<noteq> [] then
        (let digits = takeWhile isDigit cs in
         case dropWhile isDigit cs of
           [] \<Rightarrow> [[c # digits, digits, []]]
         | m # rest \<Rightarrow>
             if m = CHR ''h'' \<or> m = CHR ''H'' \<or> m = CHR 0x27
             then [c # digits @ [m], digits, [m]] # matchSections rest
             else [c # digits, digits, []] # matchSections (m # rest))
      else matchSections cs)"
  by pat_completeness auto
termination
  by (relation "measure length") (auto dest: length_dropWhile_tl length_dropWhile_strict)

text \<open>\<open>FindAllStringSubmatch(s, n)\<close>: all the matches when \<open>n < 0\<close>, else the first \<open>n\<close>.\<close>

definition FindAllStringSubmatch :: "string \<Rightarrow> int \<Rightarrow> string list list" where
  "FindAllStringSubmatch s n = (if n < 0 then matchSections s else take (nat n) (matchSections s))"

text \<open>
  \<open>strconv.Atoi\<close> on the digits the expression hands over: the decimal value, or a
  range error beyond 64 bits. (Atoi reads a sign too; the first group never holds one.)
\<close>

definition dec_value :: "string \<Rightarrow> nat" where
  "dec_value s = foldl (\<lambda>acc c. acc * 10 + (of_char c - 48)) 0 s"

definition Atoi :: "string \<Rightarrow> error + int" where
  "Atoi s =
     (if s = [] \<or> \<not> list_all isDigit s then Inl (Error ''strconv.Atoi: invalid syntax'')
      else if int (dec_value s) > 2 ^ 63 - 1 then Inl (Error ''strconv.Atoi: value out of range'')
      else Inr (int (dec_value s)))"

text \<open>\<open>fmt.Sprintf("%08x", val)\<close> for \<open>val \<ge> 0\<close>: lower-case hexadecimal, at least 8 wide.\<close>

definition hex_char :: "nat \<Rightarrow> char" where
  "hex_char d = ''0123456789abcdef'' ! d"

function hex_digits :: "nat \<Rightarrow> string" where
  "hex_digits n = (if n < 16 then [hex_char n] else hex_digits (n div 16) @ [hex_char (n mod 16)])"
  by pat_completeness auto
termination
  by (relation "measure id") auto

declare hex_digits.simps [simp del]

definition Sprintf_08x :: "int \<Rightarrow> string" where
  "Sprintf_08x val =
     (let d = hex_digits (nat val) in replicate (8 - length d) CHR ''0'' @ d)"

text \<open>\<open>hex.DecodeString\<close>.\<close>

definition fromHexChar :: "char \<Rightarrow> nat option" where
  "fromHexChar c =
     (let n = (of_char c :: nat) in
      if 48 \<le> n \<and> n \<le> 57 then Some (n - 48)
      else if 97 \<le> n \<and> n \<le> 102 then Some (n - 97 + 10)
      else if 65 \<le> n \<and> n \<le> 70 then Some (n - 65 + 10)
      else None)"

fun DecodeString :: "string \<Rightarrow> error + byte list" where
  "DecodeString [] = Inr []"
| "DecodeString [c] =
     (if fromHexChar c = None then Inl (Error ''encoding/hex: invalid byte'')
      else Inl (Error ''encoding/hex: odd length hex string''))"
| "DecodeString (a # b # rest) =
     (case fromHexChar a of
        None \<Rightarrow> Inl (Error ''encoding/hex: invalid byte'')
      | Some x \<Rightarrow>
          (case fromHexChar b of
             None \<Rightarrow> Inl (Error ''encoding/hex: invalid byte'')
           | Some y \<Rightarrow>
               (case DecodeString rest of
                  Inl e \<Rightarrow> Inl e
                | Inr bs \<Rightarrow> Inr (of_nat (x * 16 + y) # bs))))"

text \<open>The loop of \<open>encodeBipPath\<close> over the sections, building the hexadecimal text.\<close>

fun encodeBipPath_loop :: "string list list \<Rightarrow> string \<Rightarrow> error + string" where
  "encodeBipPath_loop [] retPath = Inr retPath"
| "encodeBipPath_loop (section # sections) retPath =
     (if length section \<noteq> 3 then Inl (Error ''Not enough sections'')
      else case Atoi (section ! 1) of
        Inl e \<Rightarrow> Inl e
      | Inr val \<Rightarrow>
          if val \<ge> HARDENED then Inl (Error ''Invalid child index'')
          else if section ! 2 = ''h'' \<or> section ! 2 = ''H'' \<or> section ! 2 = [CHR 0x27]
          then encodeBipPath_loop sections (retPath @ Sprintf_08x (val + HARDENED))
          else if length (section ! 2) \<noteq> 0 then Inl (Error ''Invalid modifier'')
          else encodeBipPath_loop sections (retPath @ Sprintf_08x val))"

definition encodeBipPath :: "string \<Rightarrow> error + byte list" where
  "encodeBipPath path =
     (let sections = FindAllStringSubmatch path 4 in
      case encodeBipPath_loop sections ''04'' of
        Inl e \<Rightarrow> Inl e
      | Inr retPath \<Rightarrow> DecodeString retPath)"

text \<open>\<open>binary.BigEndian.Uint32\<close> on a four-byte buffer, and \<open>fmt.Sprintf("%d", v)\<close>.\<close>

definition Uint32 :: "byte list \<Rightarrow> nat" where
  "Uint32 b = ((unat (b ! 0) * 256 + unat (b ! 1)) * 256 + unat (b ! 2)) * 256 + unat (b ! 3)"

definition dec_char :: "nat \<Rightarrow> char" where
  "dec_char d = ''0123456789'' ! d"

function dec_digits :: "nat \<Rightarrow> string" where
  "dec_digits n = (if n < 10 then [dec_char n] else dec_digits (n div 10) @ [dec_char (n mod 10)])"
  by pat_completeness auto
termination
  by (relation "measure id") auto

declare dec_digits.simps [simp del]

text \<open>
  The loop of \<open>DecodeBipPath\<close> (\<open>for i := 1; i < length * 4; i += 4\<close>); \<open>v\<close> is a
  \<open>uint32\<close>, so the subtraction of \<open>HARDENED\<close> is modulo \<open>2 ^ 32\<close>.
\<close>

function DecodeBipPath_loop :: "byte list \<Rightarrow> int \<Rightarrow> int \<Rightarrow> string \<Rightarrow> error + string" where
  "DecodeBipPath_loop pathBytes len i path =
     (if i < len * 4 then
        (case slice pathBytes i (i + 4) of
           Inl e \<Rightarrow> Inl e
         | Inr quad \<Rightarrow>
             (case index pathBytes i of
                Inl e \<Rightarrow> Inl e
              | Inr b0 \<Rightarrow>
                  if b0 = 0x80
                  then DecodeBipPath_loop pathBytes len (i + 4)
                         (path @ ''/''
                            @ dec_digits ((Uint32 quad + 2 ^ 32 - nat HARDENED) mod 2 ^ 32)
                            @ [CHR 0x27])
                  else DecodeBipPath_loop pathBytes len (i + 4)
                         (path @ ''/'' @ dec_digits (Uint32 quad))))
      else Inr path)"
  by pat_completeness auto
termination
  by (relation "measure (\<lambda>(pathBytes, len, i, path). nat (len * 4 - i))") auto

declare DecodeBipPath_loop.simps [simp del]

definition DecodeBipPath :: "byte list \<Rightarrow> error + string" where
  "DecodeBipPath pathBytes =
     (case index pathBytes 0 of
        Inl e \<Rightarrow> Inl e
      | Inr count \<Rightarrow>
          (let len = uint count in
           if int (length pathBytes) < 1 + len * 4 then Inl (Error ''Invalid Bip Path Length'')
           else DecodeBipPath_loop pathBytes len 1 []))"

section \<open>The signing handshake (ledger-apps/tezos/ledger-app-tezos.go, SignBytes)\<close>

text \<open>
  Of the device handle \<open>l.Dev\<close> the model keeps the mode of the channel.
  \<open>Dev.SetNonBlocking(b)\<close> returns the code \<open>r\<close> of the HID library: \<open>-1\<close> when the
  call failed and the mode is as before, otherwise the mode is \<open>b\<close>.
\<close>

record device =
  nonblocking :: bool

definition SetNonBlocking :: "int \<Rightarrow> bool \<Rightarrow> device \<Rightarrow> device" where
  "SetNonBlocking r b dev = (if r = - 1 then dev else dev\<lparr>nonblocking := b\<rparr>)"

text \<open>
  What the device answers during one run of \<open>SignBytes\<close>: the error of each
  \<open>l.Write\<close>, the result of each \<open>l.Read\<close>, the code and error of each mode switch.
\<close>

record exchange =
  write1 :: "error option"
  read1 :: "error + byte list"
  block_r :: int
  block_err :: "error option"
  write2 :: "error option"
  read2 :: "error + byte list"
  unblock_r :: int
  unblock_err :: "error option"

text \<open>\<open>errors.Wrap\<close> gives \<open>nil\<close> for a \<open>nil\<close> error.\<close>

definition errors_Wrap :: "error option \<Rightarrow> string \<Rightarrow> error option" where
  "errors_Wrap err msg = (case err of None \<Rightarrow> None | Some e \<Rightarrow> Some (Wrap e msg))"

text \<open>
  \<open>SignBytes\<close> returns a string and an error; the model returns the device next to
  them, in the mode the function leaves it in.
\<close>

definition SignBytes ::
  "(byte list \<Rightarrow> 256 word) \<Rightarrow> byte list \<Rightarrow> exchange \<Rightarrow> device \<Rightarrow> byte list
     \<Rightarrow> (string \<times> error option) \<times> device"
where
  "SignBytes Sum256 BipPath x dev bytesToSign =
     (if length BipPath = 0
      then (([], Some (Error ''No BIP Path is set; Use SetBipPath()'')), dev)
      else case write1 x of
        Some err \<Rightarrow> (([], errors_Wrap (Some err) ''Unable to sign bytes (1)''), dev)
      | None \<Rightarrow>
          (case read1 x of
             Inl err \<Rightarrow>
               (([], errors_Wrap (Some err) ''Unable to read bytes signature (1)''), dev)
           | Inr resp1 \<Rightarrow>
               (let dev1 = SetNonBlocking (block_r x) False dev in
                if block_r x = - 1
                then (([], errors_Wrap (block_err x) ''Could not set non-blocking''), dev1)
                else case write2 x of
                  Some err \<Rightarrow> (([], errors_Wrap (Some err) ''Unable to sign bytes (2)''), dev1)
                | None \<Rightarrow>
                    (case read2 x of
                       Inl err \<Rightarrow>
                         (([], errors_Wrap (Some err) ''Unable to read bytes signature''), dev1)
                     | Inr resp \<Rightarrow>
                         (let dev2 = SetNonBlocking (unblock_r x) True dev1 in
                          if unblock_r x = - 1
                          then (([], errors_Wrap (unblock_err x) ''Could not set non-blocking''),
                                dev2)
                          else ((B58cencode Sum256 resp edsigprefix, None), dev2))))))"

section \<open>Concrete inputs used below\<close>

text \<open>
  A response of 120 application bytes (118 zero bytes and the status word \<open>0x9000\<close>)
  and the three 64-byte packets that carry it on channel \<open>[1, 1]\<close>.
\<close>

definition response120 :: "byte list" where
  "response120 = replicate 118 0 @ [0x90, 0]"

definition frame120 :: "byte list" where
  "frame120 =
     [1, 1, 5, 0, 0, 0, 120] @ replicate 57 0
     @ [1, 1, 5, 0, 1] @ replicate 59 0
     @ [1, 1, 5, 0, 2, 0, 0, 0x90, 0] @ replicate 55 0"

text \<open>
  A stand-in for \<open>sha256.Sum256\<close> where a closed example needs some digest; the
  theorems hold for every digest function.
\<close>

definition zero_digest :: "byte list \<Rightarrow> 256 word" where
  "zero_digest bs = 0"

text \<open>
  A run of \<open>SignBytes\<close> in which the first round trip and the switch to blocking mode
  succeed and the second write fails.
\<close>

definition second_write_fails :: exchange where
  "second_write_fails =
     \<lparr>write1 = None, read1 = Inr [], block_r = 0, block_err = None,
      write2 = Some (Wrap (Error ''hid: write failed'') ''Failed to write''),
      read2 = Inr [], unblock_r = 0, unblock_err = None\<rparr>"

section \<open>Well-formed derivation paths\<close>

text \<open>
  The path grammar of the specification: a path is a sequence of segments, each a
  slash, one or more digits and an optional marker \<open>h\<close>, \<open>H\<close> or \<open>'\<close>; the number
  is below \<open>0x80000000\<close>. A segment is the pair of its digits and its marker;
  \<open>segment_value\<close> is the number with the hardened bit added for a marked segment and
  \<open>BigEndian32\<close> its four bytes, most significant first.
\<close>

definition modifiers :: "string list" where
  "modifiers = [[], ''h'', ''H'', [CHR 0x27]]"

definition segment_text :: "string \<times> string \<Rightarrow> string" where
  "segment_text s = CHR ''/'' # fst s @ snd s"

definition well_formed_segment :: "string \<times> string \<Rightarrow> bool" where
  "well_formed_segment s =
     (fst s \<noteq> [] \<and> list_all isDigit (fst s) \<and> snd s \<in> set modifiers
      \<and> dec_value (fst s) < 2 ^ 31)"

definition segment_value :: "string \<times> string \<Rightarrow> nat" where
  "segment_value s = dec_value (fst s) + (if snd s = [] then 0 else 2 ^ 31)"

definition BigEndian32 :: "nat \<Rightarrow> byte list" where
  "BigEndian32 v =
     [of_nat (v div 2 ^ 24 mod 256), of_nat (v div 2 ^ 16 mod 256),
      of_nat (v div 2 ^ 8 mod 256), of_nat (v mod 256)]"

definition path_text :: "(string \<times> string) list \<Rightarrow> string" where
  "path_text segs = concat (map segment_text segs)"

text \<open>The hexadecimal text of a number, padded with zeros to \<open>k\<close> characters.\<close>

definition pad08 :: "nat \<Rightarrow> nat \<Rightarrow> string" where
  "pad08 k n = replicate (k - length (hex_digits n)) CHR ''0'' @ hex_digits n"

section \<open>Checksums of the specification\<close>


definition checksummed :: "(byte list \<Rightarrow> 256 word) \<Rightarrow> byte list \<Rightarrow> byte list" where
  "checksummed Sum256 dataBytes =
     dataBytes @ take 4 (digest_bytes (Sum256 (digest_bytes (Sum256 dataBytes))))"

section \<open>The packets of a frame\<close>

text \<open>
  The continuation packets of the wire format (section 6 of the specification) for
  the bytes \<open>rest\<close> that the first packet left over: each is the channel, the tag 5,
  the 16-bit sequence number and the next \<open>c\<close> bytes.
\<close>

function continuation_packets :: "byte list \<Rightarrow> nat \<Rightarrow> nat \<Rightarrow> byte list \<Rightarrow> byte list" where
  "continuation_packets channel c seq rest =
     (if rest = [] \<or> c = 0 then []
      else channel @ [5] @ PutUint16 seq @ take c rest
           @ continuation_packets channel c ((seq + 1) mod 65536) (drop c rest))"
  by pat_completeness auto
termination
  by (relation "measure (\<lambda>(channel, c, seq, rest). length rest)") auto

declare continuation_packets.simps [simp del]

section \<open>Status words\<close>

text \<open>
  C1 (code defect). Every status word other than \<open>0x9000\<close> and \<open>0x61xx\<close> should be a
  failure, and \<open>0x6a84\<close> and \<open>0x6a85\<close> should both be the insufficient-space failure.
  The case \<open>0x6a84\<close> of \<open>checkFailure\<close> has an empty body, so \<open>0x6a84\<close> is reported as
  success, while \<open>0x6a85\<close> is the failure; a one-packet response that ends in \<open>0x6a84\<close>
  unwraps to its (empty) payload without an error.
\<close>

theorem checkFailure_6a84_is_success:
  "checkFailure 0x6a84 = None
   \<and> checkFailure 0x6a85 = Some (Error ''Not enough space?'')
   \<and> unwrapResponseAPDU [1, 1] ([1, 1, 5, 0, 0, 0, 2, 0x6a, 0x84] @ replicate 55 0) 64 = Inr []"
  by (simp add: unwrapResponseAPDU_def unwrap_loop.simps slice_def index_def Uint16_def
      checkFailure_def)

text \<open>The only status words \<open>checkFailure\<close> lets pass.\<close>

lemma checkFailure_None_iff:
  "checkFailure code = None \<longleftrightarrow> code = 0x9000 \<or> (code AND 0xFF00) = 0x6100 \<or> code = 0x6a84"
  by (auto simp add: checkFailure_def)

section \<open>Framing: partial frames\<close>

lemma wrap_response120: "wrapCommandAPDU [1, 1] response120 64 = Some (Inr frame120)"
  apply (simp add: wrapCommandAPDU_def response120_def frame120_def slice_def wrap_loop.simps
      pad_loop.simps go_rem_def PutUint16_def)
  apply (simp add: eval_nat_numeral)
  done

text \<open>
  C2 (code defect). A prefix of whole packets of a correctly wrapped frame that does
  not yet hold all the application bytes should give \<open>ErrMoreData\<close>. The first two
  packets (128 bytes) of the three-packet frame of a 120-byte response pass the test
  \<open>len(data) < 7 + responseLength\<close>, and the loop then ends in the fatal error
  \<open>No data\<close>; the first packet alone gives \<open>ErrMoreData\<close>, and the whole frame unwraps.
\<close>

theorem unwrap_two_of_three_packets_no_data:
  "wrapCommandAPDU [1, 1] response120 64 = Some (Inr frame120)
   \<and> length frame120 = 3 * 64
   \<and> unwrapResponseAPDU [1, 1] (take (2 * 64) frame120) 64 = Inl (Error ''No data'')
   \<and> unwrapResponseAPDU [1, 1] (take 64 frame120) 64 = Inl ErrMoreData
   \<and> unwrapResponseAPDU [1, 1] frame120 64 = Inr (replicate 118 0)"
proof -
  have "length frame120 = 3 * 64"
    by (simp add: frame120_def)
  moreover have "unwrapResponseAPDU [1, 1] (take (2 * 64) frame120) 64 = Inl (Error ''No data'')"
    by (simp add: unwrapResponseAPDU_def unwrap_loop.simps frame120_def slice_def index_def
        Uint16_def nth_append)
  moreover have "unwrapResponseAPDU [1, 1] (take 64 frame120) 64 = Inl ErrMoreData"
    by (simp add: unwrapResponseAPDU_def unwrap_loop.simps frame120_def slice_def index_def
        Uint16_def nth_append)
  moreover have "unwrapResponseAPDU [1, 1] frame120 64 = Inr (replicate 118 0)"
    apply (simp add: unwrapResponseAPDU_def unwrap_loop.simps frame120_def slice_def index_def
        Uint16_def nth_append checkFailure_def)
    apply (simp add: eval_nat_numeral)
    done
  ultimately show ?thesis
    using wrap_response120 by simp
qed

section \<open>Framing: packet sizes from 3 to 6\<close>

text \<open>
  C9. The guard of \<open>wrapCommandAPDU\<close> rejects packet sizes below 3 only. For a packet
  size from 3 to 6 and a non-empty command the first block size \<open>packetSize - 7\<close> is
  negative, and the slice \<open>command[0 : packetSize - 7]\<close> panics: the function reaches
  its run-time error.
\<close>

theorem wrap_small_packet_panics:
  "3 \<le> packetSize \<Longrightarrow> packetSize \<le> 6 \<Longrightarrow> command \<noteq> [] \<Longrightarrow>
     wrapCommandAPDU channel command packetSize = Some (Inl PanicSlice)"
  by (simp add: wrapCommandAPDU_def slice_def)

theorem wrap_small_packet_panics_witness:
  "(3::int) \<le> 3 \<and> (3::int) \<le> 6 \<and> [1::byte] \<noteq> []
   \<and> wrapCommandAPDU [1, 1] [1] 3 = Some (Inl PanicSlice)"
  using wrap_small_packet_panics [of 3 "[1]" "[1, 1]"] by simp

section \<open>Derivation paths: decoding\<close>

text \<open>
  C10. \<open>DecodeBipPath\<close> reads \<open>pathBytes[0]\<close> before it checks any length: on the empty
  slice that read is out of range and the function panics. The length check guards
  the inputs that have a first byte: when fewer than \<open>1 + 4 * pathBytes[0]\<close> bytes are
  there, the result is the error \<open>Invalid Bip Path Length\<close>.
\<close>

theorem DecodeBipPath_empty_panics:
  "DecodeBipPath [] = Inl PanicIndex
   \<and> (pathBytes \<noteq> [] \<and> int (length pathBytes) < 1 + uint (hd pathBytes) * 4
        \<longrightarrow> DecodeBipPath pathBytes = Inl (Error ''Invalid Bip Path Length''))"
  by (cases pathBytes) (simp_all add: DecodeBipPath_def index_def)

theorem DecodeBipPath_empty_panics_witness:
  "DecodeBipPath [] = Inl PanicIndex
   \<and> [4, 128, 0, 0, 44 :: byte] \<noteq> []
   \<and> int (length [4, 128, 0, 0, 44 :: byte]) < 1 + uint (hd [4, 128, 0, 0, 44 :: byte]) * 4
   \<and> DecodeBipPath [4, 128, 0, 0, 44] = Inl (Error ''Invalid Bip Path Length'')"
  using DecodeBipPath_empty_panics [of "[4, 128, 0, 0, 44]"] by simp

section \<open>The signing handshake\<close>

text \<open>
  C7 (code defect). Whenever \<open>SignBytes\<close> returns after it has switched the channel to
  blocking mode, the channel should be back in non-blocking mode. The switch back is
  one call before the final return: when the second write fails (and likewise when
  the second read fails) the function returns the error at once and leaves the device
  in blocking mode.
\<close>

theorem SignBytes_leaves_blocking_mode:
  "SignBytes zero_digest [4, 128, 0, 0, 44] second_write_fails \<lparr>nonblocking = True\<rparr> [3, 1]
     = (([], Some (Wrap (Wrap (Error ''hid: write failed'') ''Failed to write'')
                     ''Unable to sign bytes (2)'')),
        \<lparr>nonblocking = False\<rparr>)"
  by (simp add: SignBytes_def second_write_fails_def SetNonBlocking_def errors_Wrap_def)

section \<open>Derivation paths: encoding\<close>

lemma takeWhile_digits:
  "list_all P ds \<Longrightarrow> rest = [] \<or> \<not> P (hd rest) \<Longrightarrow> takeWhile P (ds @ rest) = ds"
  by (cases rest) (auto simp: list_all_iff takeWhile_append2)

lemma dropWhile_digits:
  "list_all P ds \<Longrightarrow> rest = [] \<or> \<not> P (hd rest) \<Longrightarrow> dropWhile P (ds @ rest) = rest"
  by (cases rest) (auto simp: list_all_iff dropWhile_append2)

lemma not_digit_chars:
  "\<not> isDigit CHR ''/''" "\<not> isDigit CHR ''h''" "\<not> isDigit CHR ''H''" "\<not> isDigit (CHR 0x27)"
  by (simp_all add: isDigit_def)

lemma matchSections_segment:
  assumes wf: "well_formed_segment s" and rest: "rest = [] \<or> hd rest = CHR ''/''"
  shows "matchSections (segment_text s @ rest)
           = [segment_text s, fst s, snd s] # matchSections rest"
proof -
  obtain ds m where s: "s = (ds, m)" by (cases s)
  from wf s have ds: "ds \<noteq> []" "list_all isDigit ds" and m: "m \<in> set modifiers"
    by (simp_all add: well_formed_segment_def)
  have nd: "m @ rest = [] \<or> \<not> isDigit (hd (m @ rest))"
    using m rest not_digit_chars by (auto simp: modifiers_def)
  have tw: "takeWhile isDigit (ds @ m @ rest) = ds"
    using takeWhile_digits [OF ds(2) nd] .
  have dw: "dropWhile isDigit (ds @ m @ rest) = m @ rest"
    using dropWhile_digits [OF ds(2) nd] .
  have ms: "matchSections (CHR ''/'' # ds @ m @ rest) =
      (case m @ rest of
         [] \<Rightarrow> [[CHR ''/'' # ds, ds, []]]
       | c # r \<Rightarrow>
           if c = CHR ''h'' \<or> c = CHR ''H'' \<or> c = CHR 0x27
           then [CHR ''/'' # ds @ [c], ds, [c]] # matchSections r
           else [CHR ''/'' # ds, ds, []] # matchSections (c # r))"
    by (simp add: tw dw ds(1))
  have tx: "segment_text s @ rest = CHR ''/'' # ds @ m @ rest"
    by (simp add: segment_text_def s)
  show ?thesis
  proof (cases "m = []")
    case True
    show ?thesis
    proof (cases rest)
      case Nil
      with True show ?thesis unfolding tx ms by (simp add: segment_text_def s)
    next
      case (Cons c r)
      with rest have "c = CHR ''/''" by simp
      with True Cons show ?thesis unfolding tx ms by (simp add: segment_text_def s)
    qed
  next
    case False
    with m obtain c where c: "m = [c]" "c = CHR ''h'' \<or> c = CHR ''H'' \<or> c = CHR 0x27"
      by (auto simp: modifiers_def)
    then show ?thesis unfolding tx ms by (auto simp add: segment_text_def s)
  qed
qed

lemma path_text_start: "path_text segs = [] \<or> hd (path_text segs) = CHR ''/''"
  by (cases segs) (simp_all add: path_text_def segment_text_def)

lemma matchSections_path:
  "list_all well_formed_segment segs \<Longrightarrow>
     matchSections (path_text segs) = map (\<lambda>s. [segment_text s, fst s, snd s]) segs"
proof (induction segs)
  case Nil
  then show ?case by (simp add: path_text_def)
next
  case (Cons s segs)
  have "path_text (s # segs) = segment_text s @ path_text segs"
    by (simp add: path_text_def)
  with Cons path_text_start [of segs] show ?case
    by (simp add: matchSections_segment)
qed

lemma Atoi_digits:
  "well_formed_segment s \<Longrightarrow> Atoi (fst s) = Inr (int (dec_value (fst s)))"
proof -
  assume wf: "well_formed_segment s"
  then have "dec_value (fst s) < 2 ^ 31" by (simp add: well_formed_segment_def)
  then have "int (dec_value (fst s)) < 2 ^ 31" by (metis of_nat_less_iff of_nat_numeral of_nat_power)
  then have "\<not> int (dec_value (fst s)) > 2 ^ 63 - 1" by simp
  with wf show ?thesis by (simp add: Atoi_def well_formed_segment_def)
qed

lemma encodeBipPath_loop_sections:
  "list_all well_formed_segment segs \<Longrightarrow>
     encodeBipPath_loop (map (\<lambda>s. [segment_text s, fst s, snd s]) segs) acc
       = Inr (acc @ concat (map (\<lambda>s. Sprintf_08x (int (segment_value s))) segs))"
proof (induction segs arbitrary: acc)
  case Nil
  then show ?case by simp
next
  case (Cons s segs)
  then have wf: "well_formed_segment s" and rest: "list_all well_formed_segment segs"
    by simp_all
  have lt: "int (dec_value (fst s)) < HARDENED"
    using wf by (simp add: well_formed_segment_def HARDENED_def)
  have m: "snd s \<in> set modifiers" using wf by (simp add: well_formed_segment_def)
  show ?case
  proof (cases "snd s = []")
    case True
    with lt Atoi_digits [OF wf] Cons.IH [OF rest] show ?thesis
      by (simp add: segment_value_def)
  next
    case False
    with m have "snd s = ''h'' \<or> snd s = ''H'' \<or> snd s = [CHR 0x27]"
      by (auto simp: modifiers_def)
    with False lt Atoi_digits [OF wf] Cons.IH [OF rest] show ?thesis
      by (auto simp add: segment_value_def HARDENED_def)
  qed
qed


lemma hex_digits_length: "n < 16 ^ k \<Longrightarrow> 0 < k \<Longrightarrow> length (hex_digits n) \<le> k"
proof (induction n arbitrary: k rule: hex_digits.induct)
  case (1 n)
  show ?case
  proof (cases "n < 16")
    case True
    with 1(3) show ?thesis by (subst hex_digits.simps) simp
  next
    case False
    then obtain j where k: "k = Suc j" using 1(3) by (cases k) auto
    from False 1(2) k have j: "0 < j" by (cases j) auto
    from 1(2) k have "n div 16 < 16 ^ j"
      by (simp add: less_mult_imp_div_less mult.commute)
    from 1(1) [OF False this j] False k show ?thesis
      by (subst hex_digits.simps) simp
  qed
qed

lemma pad08_Suc:
  assumes "n < 16 ^ Suc k" "0 < k"
  shows "pad08 (Suc k) n = pad08 k (n div 16) @ [hex_char (n mod 16)]"
proof (cases "n < 16")
  case True
  then have d: "hex_digits n = [hex_char n]" "hex_digits (n div 16) = [hex_char 0]"
    by (subst hex_digits.simps, simp)+
  obtain j where "k = Suc j" using assms(2) by (cases k) auto
  with True d show ?thesis
    by (simp add: pad08_def hex_char_def replicate_append_same)
next
  case False
  from assms have "n div 16 < 16 ^ k"
    by (simp add: less_mult_imp_div_less mult.commute)
  from hex_digits_length [OF this assms(2)] have len: "length (hex_digits (n div 16)) \<le> k" .
  from False have "hex_digits n = hex_digits (n div 16) @ [hex_char (n mod 16)]"
    by (subst hex_digits.simps) simp
  with len show ?thesis
    by (simp add: pad08_def Suc_diff_le)
qed

lemma pad08_1: "n < 16 \<Longrightarrow> pad08 (Suc 0) n = [hex_char n]"
  by (subst pad08_def, subst (1 2) hex_digits.simps) simp

lemma fromHexChar_hex_char: "d < 16 \<Longrightarrow> fromHexChar (hex_char d) = Some d"
proof -
  assume "d < 16"
  then have "d = 0 \<or> d = 1 \<or> d = 2 \<or> d = 3 \<or> d = 4 \<or> d = 5 \<or> d = 6 \<or> d = 7 \<or> d = 8
      \<or> d = 9 \<or> d = 10 \<or> d = 11 \<or> d = 12 \<or> d = 13 \<or> d = 14 \<or> d = 15"
    by (simp add: eval_nat_numeral less_Suc_eq)
  then show ?thesis
    by (elim disjE) (simp_all add: fromHexChar_def hex_char_def)
qed

lemma Sprintf_08x_digits:
  assumes "v < 2 ^ 32"
  shows "Sprintf_08x (int v) =
     [hex_char (v div 16 ^ 7 mod 16), hex_char (v div 16 ^ 6 mod 16),
      hex_char (v div 16 ^ 5 mod 16), hex_char (v div 16 ^ 4 mod 16),
      hex_char (v div 16 ^ 3 mod 16), hex_char (v div 16 ^ 2 mod 16),
      hex_char (v div 16 ^ 1 mod 16), hex_char (v div 16 ^ 0 mod 16)]"
proof -
  define a where "a j = v div 16 ^ j" for j
  have p: "Sprintf_08x (int v) = pad08 8 (a 0)"
    by (simp add: Sprintf_08x_def pad08_def a_def Let_def)
  have a_Suc: "\<And>j. a j div 16 = a (Suc j)"
    unfolding a_def power_Suc2 by (rule div_mult2_eq [symmetric])
  have b: "\<And>j. j \<le> 7 \<Longrightarrow> a j < 16 ^ (8 - j)"
  proof -
    fix j :: nat assume j: "j \<le> 7"
    have "(16::nat) ^ j * 16 ^ (8 - j) = 16 ^ 8"
      using j by (simp flip: power_add)
    then have "v < 16 ^ j * 16 ^ (8 - j)"
      using assms by simp
    then show "a j < 16 ^ (8 - j)"
      unfolding a_def by (simp add: less_mult_imp_div_less mult.commute)
  qed
  have step: "\<And>j k. j \<le> 7 \<Longrightarrow> 8 - j = Suc k \<Longrightarrow> 0 < k \<Longrightarrow>
      pad08 (Suc k) (a j) = pad08 k (a (Suc j)) @ [hex_char (a j mod 16)]"
    using pad08_Suc b a_Suc by metis
  have s7: "pad08 8 (a 0) = pad08 7 (a 1) @ [hex_char (a 0 mod 16)]"
    using step [of 0 7] by simp
  have s6: "pad08 7 (a 1) = pad08 6 (a 2) @ [hex_char (a 1 mod 16)]"
    using step [of 1 6] by (simp add: numeral_2_eq_2)
  have s5: "pad08 6 (a 2) = pad08 5 (a 3) @ [hex_char (a 2 mod 16)]"
    using step [of 2 5] by simp
  have s4: "pad08 5 (a 3) = pad08 4 (a 4) @ [hex_char (a 3 mod 16)]"
    using step [of 3 4] by simp
  have s3: "pad08 4 (a 4) = pad08 3 (a 5) @ [hex_char (a 4 mod 16)]"
    using step [of 4 3] by simp
  have s2: "pad08 3 (a 5) = pad08 2 (a 6) @ [hex_char (a 5 mod 16)]"
    using step [of 5 2] by simp
  have s1: "pad08 2 (a 6) = pad08 1 (a 7) @ [hex_char (a 6 mod 16)]"
    using step [of 6 1] by (simp add: numeral_2_eq_2)
  have s0: "pad08 1 (a 7) = [hex_char (a 7 mod 16)]"
    using pad08_1 [of "a 7"] b [of 7] by simp
  show ?thesis
    unfolding p s7 s6 s5 s4 s3 s2 s1 s0 by (simp add: a_def)
qed


lemma nibbles_byte: "(x div 16 mod 16) * 16 + x mod 16 = x mod (256::nat)"
  using mod_mult2_eq [of x 16 16] by simp

lemma DecodeString_Sprintf_08x:
  assumes "v < 2 ^ 32"
  shows "DecodeString (Sprintf_08x (int v) @ rest) =
     (case DecodeString rest of Inl e \<Rightarrow> Inl e | Inr bs \<Rightarrow> Inr (BigEndian32 v @ bs))"
proof -
  have b3: "(v div 16 ^ 7 mod 16) * 16 + v div 16 ^ 6 mod 16 = v div 2 ^ 24 mod 256"
    using nibbles_byte [of "v div 16 ^ 6"] div_mult2_eq [of v "16 ^ 6" 16] by simp
  have b2: "(v div 16 ^ 5 mod 16) * 16 + v div 16 ^ 4 mod 16 = v div 2 ^ 16 mod 256"
    using nibbles_byte [of "v div 16 ^ 4"] div_mult2_eq [of v "16 ^ 4" 16] by simp
  have b1: "(v div 16 ^ 3 mod 16) * 16 + v div 16 ^ 2 mod 16 = v div 2 ^ 8 mod 256"
    using nibbles_byte [of "v div 16 ^ 2"] div_mult2_eq [of v "16 ^ 2" 16] by simp
  have b0: "(v div 16 ^ 1 mod 16) * 16 + v div 16 ^ 0 mod 16 = v mod 256"
    using nibbles_byte [of v] by simp
  note w = arg_cong [OF b3, of "of_nat :: nat \<Rightarrow> byte"]
    arg_cong [OF b2, of "of_nat :: nat \<Rightarrow> byte"]
    arg_cong [OF b1, of "of_nat :: nat \<Rightarrow> byte"]
    arg_cong [OF b0, of "of_nat :: nat \<Rightarrow> byte"]
  show ?thesis
    unfolding Sprintf_08x_digits [OF assms]
    using w by (simp add: fromHexChar_hex_char BigEndian32_def split: sum.splits)
qed


lemma DecodeString_values:
  "\<forall>v \<in> set vs. v < 2 ^ 32 \<Longrightarrow>
     DecodeString (concat (map (\<lambda>v. Sprintf_08x (int v)) vs)) = Inr (concat (map BigEndian32 vs))"
  by (induction vs) (simp_all add: DecodeString_Sprintf_08x)

lemma segment_value_bound: "well_formed_segment s \<Longrightarrow> segment_value s < 2 ^ 32"
  by (simp add: well_formed_segment_def segment_value_def)

text \<open>
  C6 (as amended). The length byte does not count the segments: \<open>encodeBipPath\<close> starts
  its output with the constant \<open>04\<close> and asks the regular expression for at most four
  matches. For every well-formed path the encoding is the byte 4 followed by the
  four-byte big-endian values of its first four segments (of all of them when there
  are fewer), each with the hardened bit when the segment is marked; for a path of
  exactly four segments this is the length byte and the values of the claim.
\<close>

theorem encodeBipPath_well_formed:
  assumes "list_all well_formed_segment segs"
  shows "encodeBipPath (path_text segs)
           = Inr (4 # concat (map (\<lambda>s. BigEndian32 (segment_value s)) (take 4 segs)))"
proof -
  have wf4: "list_all well_formed_segment (take 4 segs)"
    using assms by (auto simp: list_all_iff dest: in_set_takeD)
  have "FindAllStringSubmatch (path_text segs) 4
          = map (\<lambda>s. [segment_text s, fst s, snd s]) (take 4 segs)"
    by (simp add: FindAllStringSubmatch_def matchSections_path [OF assms] take_map)
  moreover have "DecodeString (''04'' @ concat (map (\<lambda>s. Sprintf_08x (int (segment_value s))) (take 4 segs)))
      = Inr (4 # concat (map (\<lambda>s. BigEndian32 (segment_value s)) (take 4 segs)))"
  proof -
    have "\<forall>v \<in> set (map segment_value (take 4 segs)). v < 2 ^ 32"
      using wf4 segment_value_bound by (force simp: list_all_iff)
    from DecodeString_values [OF this] show ?thesis
      by (simp add: fromHexChar_def comp_def)
  qed
  ultimately show ?thesis
    by (simp add: encodeBipPath_def encodeBipPath_loop_sections [OF wf4])
qed

theorem encodeBipPath_well_formed_witness:
  "list_all well_formed_segment
     [(''44'', ''h''), (''1729'', [CHR 0x27]), (''0'', ''H''), (''0'', [])]
   \<and> encodeBipPath
       (path_text [(''44'', ''h''), (''1729'', [CHR 0x27]), (''0'', ''H''), (''0'', [])])
     = Inr [4, 0x80, 0, 0, 0x2c, 0x80, 0, 6, 0xc1, 0x80, 0, 0, 0, 0, 0, 0, 0]"
  using encodeBipPath_well_formed
    [of "[(''44'', ''h''), (''1729'', [CHR 0x27]), (''0'', ''H''), (''0'', [])]"]
  by (simp add: well_formed_segment_def isDigit_def modifiers_def dec_value_def
      segment_value_def BigEndian32_def)

text \<open>
  C6 as stated fails: the path \<open>/44h/1729h\<close> has two segments, and its encoding starts
  with the byte 4, followed by two values.
\<close>

theorem encodeBipPath_two_segments_length_four:
  "encodeBipPath ''/44h/1729h'' = Inr [4, 0x80, 0, 0, 0x2c, 0x80, 0, 6, 0xc1]
   \<and> length (matchSections ''/44h/1729h'') = 2"
  by (simp add: encodeBipPath_def FindAllStringSubmatch_def isDigit_def Atoi_def dec_value_def
      HARDENED_def Sprintf_08x_def hex_digits.simps hex_char_def fromHexChar_def)

section \<open>Checksummed base 58: leading ones\<close>

lemma prepend_ones_replicate: "prepend_ones n s = replicate n CHR ''1'' @ s"
  by (induction n arbitrary: s) (simp_all add: replicate_app_Cons_same)

lemma prepend_zeros_replicate: "prepend_zeros n s = replicate n 0 @ s"
  by (induction n arbitrary: s) (simp_all add: replicate_app_Cons_same)

lemma zero_count_takeWhile: "zero_count bs = length (takeWhile (\<lambda>b. b = 0) bs)"
  by (induction bs) simp_all

lemma one_count_takeWhile: "one_count s = length (takeWhile (\<lambda>c. c = CHR ''1'') s)"
proof (induction s)
  case Nil
  then show ?case by simp
next
  case (Cons c s)
  have "(of_char c = (49::nat)) = (c = CHR ''1'')"
    using of_char_eq_iff [of c "CHR ''1''", where ?'a = nat] by simp
  with Cons show ?case by simp
qed

lemma length_digest4: "length (take 4 (digest_bytes h)) = 4"
  by (simp add: digest_bytes_def)

lemma distinct_alphabet: "distinct alphabet"
  by (simp add: alphabet_def)

lemma length_alphabet: "length alphabet = 58"
  by (simp add: alphabet_def)

lemma alphabet_0: "alphabet ! 0 = CHR ''1''"
  by (simp add: alphabet_def)

lemma alphabet_nth_not_one: "0 < d \<Longrightarrow> d < 58 \<Longrightarrow> alphabet ! d \<noteq> CHR ''1''"
  using nth_eq_iff_index_eq [OF distinct_alphabet, of d 0] by (simp add: length_alphabet alphabet_0)

lemma b58_digits_Nil_iff: "b58_digits n = [] \<longleftrightarrow> n = 0"
  by (subst b58_digits.simps) simp

lemma b58_digits_hd: "n \<noteq> 0 \<Longrightarrow> hd (b58_digits n) \<noteq> CHR ''1''"
proof (induction n rule: b58_digits.induct)
  case (1 n)
  show ?case
  proof (cases "n div 58 = 0")
    case True
    then have "n < 58" by (simp add: div_eq_0_iff)
    with 1(2) True show ?thesis
      by (subst b58_digits.simps, subst b58_digits.simps) (simp add: alphabet_nth_not_one)
  next
    case False
    with 1 have "hd (b58_digits (n div 58)) \<noteq> CHR ''1''" by simp
    moreover have "b58_digits (n div 58) \<noteq> []" using False by (simp add: b58_digits_Nil_iff)
    ultimately show ?thesis using 1(2)
      by (subst b58_digits.simps) simp
  qed
qed

lemma b58_digits_alphabet: "list_all (\<lambda>c. c \<in> set alphabet) (b58_digits n)"
proof (induction n rule: b58_digits.induct)
  case (1 n)
  show ?case
  proof (cases "n = 0")
    case True
    then show ?thesis by (subst b58_digits.simps) simp
  next
    case False
    have "alphabet ! (n mod 58) \<in> set alphabet"
      by (rule nth_mem) (simp add: length_alphabet)
    with 1 False show ?thesis by (subst b58_digits.simps) simp
  qed
qed

lemma takeWhile_ones_b58_digits: "takeWhile (\<lambda>c. c = CHR ''1'') (b58_digits n) = []"
proof (cases "n = 0")
  case True
  then have "b58_digits n = []" by (simp add: b58_digits_Nil_iff)
  then show ?thesis by simp
next
  case False
  then have "b58_digits n \<noteq> []" "hd (b58_digits n) \<noteq> CHR ''1''"
    by (simp_all add: b58_digits_Nil_iff b58_digits_hd)
  then show ?thesis by (cases "b58_digits n") simp_all
qed

lemma takeWhile_replicate_append:
  "P c \<Longrightarrow> takeWhile P (replicate n c @ ys) = replicate n c @ takeWhile P ys"
  by (induction n) simp_all

lemma dropWhile_replicate_append:
  "P c \<Longrightarrow> dropWhile P (replicate n c @ ys) = dropWhile P ys"
  by (induction n) simp_all

lemma digest_bytes_zero: "take 4 (digest_bytes 0) = [0, 0, 0, 0]"
  by (simp add: digest_bytes_def upt_rec)

lemma encode_ones_digits:
  "encode Sum256 dataBytes
     = replicate (2 * length (takeWhile (\<lambda>b. b = 0) (checksummed Sum256 dataBytes))) CHR ''1''
       @ b58_digits (SetBytes (checksummed Sum256 dataBytes))"
  by (simp add: encode_def Let_def prepend_ones_replicate zero_count_takeWhile checksummed_def
      base58_Encode_def mult_2 replicate_add)

text \<open>
  C8 (code defect). When the pre-encoded bytes (the data followed by its four checksum
  bytes) begin with \<open>z\<close> zero bytes, the text of \<open>encode\<close> should begin with exactly
  \<open>z\<close> characters \<open>'1'\<close>. \<open>encode\<close> prepends \<open>z\<close> of them to the text of
  \<open>base58.Encode\<close>, which holds one \<open>'1'\<close> for each leading zero byte already: the
  text begins with exactly \<open>2 * z\<close> characters \<open>'1'\<close>, followed by the base-58 digits
  of the number. For the data \<open>00 00 07\<close> (here with a checksum of zero bytes) that
  is four characters \<open>'1'\<close> for two leading zero bytes.
\<close>

theorem encode_doubles_leading_ones:
  "takeWhile (\<lambda>c. c = CHR ''1'') (encode Sum256 dataBytes)
     = replicate (2 * length (takeWhile (\<lambda>b. b = 0) (checksummed Sum256 dataBytes))) CHR ''1''
   \<and> dropWhile (\<lambda>c. c = CHR ''1'') (encode Sum256 dataBytes)
     = b58_digits (SetBytes (checksummed Sum256 dataBytes))
   \<and> checksummed zero_digest [0, 0, 7] = [0, 0, 7, 0, 0, 0, 0]
   \<and> encode zero_digest [0, 0, 7] = ''1111noiozw''"
proof -
  let ?pre = "checksummed Sum256 dataBytes"
  let ?z = "length (takeWhile (\<lambda>b. b = 0) ?pre)"
  let ?d = "b58_digits (SetBytes ?pre)"
  have e: "encode Sum256 dataBytes = replicate (2 * ?z) CHR ''1'' @ ?d"
    by (rule encode_ones_digits)
  have t: "takeWhile (\<lambda>c. c = CHR ''1'') ?d = []"
    by (rule takeWhile_ones_b58_digits)
  have d: "dropWhile (\<lambda>c. c = CHR ''1'') ?d = ?d"
    using takeWhile_dropWhile_id [of "\<lambda>c. c = CHR ''1''" ?d] t by simp
  have c: "checksummed zero_digest [0, 0, 7] = [0, 0, 7, 0, 0, 0, 0]"
    by (simp add: checksummed_def zero_digest_def digest_bytes_zero)
  have n: "b58_digits (SetBytes [0, 0, 7, 0, 0, 0, 0]) = ''noiozw''"
    by (simp add: SetBytes_def b58_digits.simps alphabet_def)
  have r: "replicate (2 * 2) CHR ''1'' = ''1111''"
    by (simp add: eval_nat_numeral)
  have z: "length (takeWhile (\<lambda>b. b = 0) [0, 0, 7, 0, 0, 0, 0 :: byte]) = 2"
    by simp
  have x: "encode zero_digest [0, 0, 7] = ''1111noiozw''"
    unfolding encode_ones_digits [of zero_digest "[0, 0, 7]"] c n z r by simp
  show ?thesis
    unfolding e using c x
    by (simp add: takeWhile_replicate_append dropWhile_replicate_append t d)
qed

section \<open>Checksummed base 58: round trip\<close>

lemma runes_of_ascii: "\<forall>b \<in> set bs. b < 128 \<Longrightarrow> runes_of bs = bs"
  by (induction bs) simp_all

lemma alphabet_ascii: "c \<in> set alphabet \<Longrightarrow> (of_char c :: nat) < 128"
  by (auto simp add: alphabet_def)

lemma runes_alphabet: "list_all (\<lambda>c. c \<in> set alphabet) s \<Longrightarrow> runes s = map of_char s"
  unfolding runes_def by (rule runes_of_ascii) (auto simp: list_all_iff alphabet_ascii)

lemma IndexByte_nth: "distinct xs \<Longrightarrow> d < length xs \<Longrightarrow> IndexByte xs (xs ! d) = int d"
proof (induction xs arbitrary: d)
  case Nil
  then show ?case by simp
next
  case (Cons b bs)
  show ?case
  proof (cases d)
    case 0
    then show ?thesis by simp
  next
    case (Suc d')
    with Cons.prems have "d' < length bs" "distinct bs" "b \<noteq> bs ! d'"
      by auto
    with Cons.IH [of d'] Suc show ?thesis by (simp add: Let_def)
  qed
qed


lemma distinct_alphabetBytes: "distinct alphabetBytes"
  by (simp add: alphabetBytes_def alphabet_def)

lemma length_alphabetBytes: "length alphabetBytes = 58"
  by (simp add: alphabetBytes_def alphabet_def)

lemma IndexByte_alphabet:
  "d < 58 \<Longrightarrow> IndexByte alphabetBytes (of_nat (of_char (alphabet ! d))) = int d"
proof -
  assume d: "d < 58"
  then have "alphabetBytes ! d = of_nat (of_char (alphabet ! d))"
    by (simp add: alphabetBytes_def length_alphabet of_nat_of_char)
  with IndexByte_nth [OF distinct_alphabetBytes, of d] d show ?thesis
    by (simp add: length_alphabetBytes)
qed

lemma b58decode_loop_append:
  "b58decode_loop (xs @ ys) acc =
     (case b58decode_loop xs acc of Inl e \<Rightarrow> Inl e | Inr m \<Rightarrow> b58decode_loop ys m)"
  by (induction xs arbitrary: acc) (simp_all add: Let_def)

lemma b58decode_loop_digits: "b58decode_loop (map of_char (b58_digits n)) 0 = Inr n"
proof (induction n rule: b58_digits.induct)
  case (1 n)
  show ?case
  proof (cases "n = 0")
    case True
    then show ?thesis by (subst b58_digits.simps) simp
  next
    case False
    with 1 have "b58decode_loop (map of_char (b58_digits (n div 58))) 0 = Inr (n div 58)"
      by simp
    with False show ?thesis
      by (subst b58_digits.simps)
        (simp add: b58decode_loop_append IndexByte_alphabet Let_def)
  qed
qed

lemma SetBytes_snoc: "SetBytes (bs @ [b]) = SetBytes bs * 256 + unat b"
  by (simp add: SetBytes_def)

lemma SetBytes_zero_iff: "SetBytes bs = 0 \<longleftrightarrow> (\<forall>b \<in> set bs. b = 0)"
  by (induction bs rule: rev_induct) (auto simp: SetBytes_snoc SetBytes_def unat_eq_0)

lemma Bytes_SetBytes: "Bytes (SetBytes bs) = dropWhile (\<lambda>b. b = 0) bs"
proof (induction bs rule: rev_induct)
  case Nil
  then show ?case by (subst Bytes.simps) (simp add: SetBytes_def)
next
  case (snoc b bs)
  show ?case
  proof (cases "SetBytes (bs @ [b]) = 0")
    case True
    then have "\<forall>x \<in> set (bs @ [b]). x = 0" by (simp only: SetBytes_zero_iff)
    then have "dropWhile (\<lambda>b. b = 0) (bs @ [b]) = []" by simp
    with True show ?thesis by (subst Bytes.simps) simp
  next
    case False
    have ub: "unat b < 256"
      using unsigned_less [of b, where ?'a = nat] by simp
    then have dm: "(SetBytes bs * 256 + unat b) div 256 = SetBytes bs"
      "(SetBytes bs * 256 + unat b) mod 256 = unat b" "unat b mod 256 = unat b"
      by simp_all
    have "Bytes (SetBytes (bs @ [b])) = Bytes (SetBytes bs) @ [b]"
      using False by (subst Bytes.simps) (simp add: SetBytes_snoc dm)
    also have "\<dots> = dropWhile (\<lambda>b. b = 0) bs @ [b]" by (simp add: snoc)
    also have "\<dots> = dropWhile (\<lambda>b. b = 0) (bs @ [b])"
    proof (cases "\<forall>x \<in> set bs. x = 0")
      case True
      with False have "b \<noteq> 0" by (simp add: SetBytes_zero_iff)
      with True show ?thesis by (simp add: dropWhile_append)
    next
      case False
      then show ?thesis by (auto simp add: dropWhile_append)
    qed
    finally show ?thesis .
  qed
qed

lemma Bytes_SetBytes_id: "bs \<noteq> [] \<Longrightarrow> hd bs \<noteq> 0 \<Longrightarrow> Bytes (SetBytes bs) = bs"
  by (cases bs) (simp_all add: Bytes_SetBytes)


lemma decode_encode:
  assumes "dataBytes \<noteq> []" "hd dataBytes \<noteq> 0"
  shows "decode Sum256 (encode Sum256 dataBytes) = (dataBytes, None)"
proof -
  let ?cs = "take 4 (digest_bytes (Sum256 (digest_bytes (Sum256 dataBytes))))"
  let ?pre = "dataBytes @ ?cs"
  let ?E = "b58_digits (SetBytes ?pre)"
  from assms obtain b bs where db: "dataBytes = b # bs" "b \<noteq> 0"
    by (cases dataBytes) auto
  then have z: "zero_count ?pre = 0" "takeWhile (\<lambda>x. x = 0) ?pre = []"
    by simp_all
  have enc: "encode Sum256 dataBytes = ?E"
    using z by (simp add: encode_def Let_def base58_Encode_def)
  have oc: "one_count ?E = 0"
    by (simp add: one_count_takeWhile takeWhile_ones_b58_digits)
  have "Bytes (SetBytes ?pre) = ?pre"
    using db by (intro Bytes_SetBytes_id) simp_all
  then have dec: "b58decode ?E = Inr ?pre"
    by (simp add: b58decode_def runes_alphabet [OF b58_digits_alphabet] b58decode_loop_digits)
  have len: "length ?pre = length dataBytes + 4"
    by (simp add: digest_bytes_def)
  show ?thesis
    unfolding enc decode_def using assms(1) by (simp add: oc dec Let_def len del: length_append)
qed

lemma tezos_prefix_nonzero: "prefix \<in> set tezos_prefixes \<Longrightarrow> prefix \<noteq> [] \<and> hd prefix \<noteq> 0"
  by (auto simp add: tezos_prefixes_def tz1prefix_def tz2prefix_def tz3prefix_def ktprefix_def
      edskprefix_def edsigprefix_def sigprefix_def edsk2prefix_def edpkprefix_def
      edeskprefix_def branchprefix_def chainidprefix_def blockprefix_def
      endorsementprefix_def genericopprefix_def networkprefix_def)

text \<open>
  C5. For every payload, leading zero bytes or not, and each of the sixteen prefixes
  of the Tezos package, decoding the encoding gives the payload back:
  \<open>B58cdecode(B58cencode(payload, prefix), prefix) == payload\<close>.
\<close>

theorem B58c_round_trip:
  assumes "prefix \<in> set tezos_prefixes"
  shows "B58cdecode Sum256 (B58cencode Sum256 payload prefix) prefix = Inr payload"
proof -
  from tezos_prefix_nonzero [OF assms] have "prefix @ payload \<noteq> []" "hd (prefix @ payload) \<noteq> 0"
    by simp_all
  from decode_encode [OF this] show ?thesis
    by (simp add: B58cdecode_def B58cencode_def slice_def)
qed

theorem B58c_round_trip_witness:
  "tz1prefix \<in> set tezos_prefixes
   \<and> B58cdecode zero_digest (B58cencode zero_digest [0, 0, 7] tz1prefix) tz1prefix = Inr [0, 0, 7]"
  using B58c_round_trip [of tz1prefix zero_digest "[0, 0, 7]"]
  by (simp add: tezos_prefixes_def)

section \<open>Checksummed base 58: failures of decoding\<close>










section \<open>Framing: round trip\<close>

lemma slice_app:
  "length pre = n \<Longrightarrow> length xs = k \<Longrightarrow> slice (pre @ xs @ rest) (int n) (int n + int k) = Inr xs"
  by (simp add: slice_def)

lemma index_app: "length pre = n \<Longrightarrow> index (pre @ x # rest) (int n) = Inr x"
  by (auto simp add: index_def nth_append)

lemma slice_take_drop:
  "a \<le> b \<Longrightarrow> b \<le> length xs \<Longrightarrow> slice xs (int a) (int b) = Inr (take (b - a) (drop a xs))"
  by (simp add: slice_def nat_diff_distrib')

lemma Uint16_PutUint16: "v < 65536 \<Longrightarrow> Uint16 (PutUint16 v) = v"
proof -
  assume v: "v < 65536"
  then have "v div 256 < 256" by simp
  then have "unat (of_nat (v div 256 mod 256) :: byte) = v div 256"
    by (simp add: unat_of_nat)
  moreover have "unat (of_nat (v mod 256) :: byte) = v mod 256"
    by (simp add: unat_of_nat)
  ultimately show ?thesis
    by (simp add: Uint16_def PutUint16_def)
qed

lemma length_PutUint16: "length (PutUint16 v) = 2"
  by (simp add: PutUint16_def)

lemma continuation_packets_Nil: "continuation_packets channel c seq [] = []"
  by (subst continuation_packets.simps) simp

lemma continuation_packets_Cons:
  "rest \<noteq> [] \<Longrightarrow> 0 < c \<Longrightarrow>
     continuation_packets channel c seq rest =
       channel @ [5] @ PutUint16 seq @ take c rest
       @ continuation_packets channel c ((seq + 1) mod 65536) (drop c rest)"
  by (subst continuation_packets.simps) simp

lemma wrap_loop_packets:
  "0 < c \<Longrightarrow> offset \<le> length command \<Longrightarrow>
     wrap_loop channel command (int c + 5) seq (int offset) result
       = Some (Inr (result @ continuation_packets channel c seq (drop offset command)))"
proof (induction "length command - offset" arbitrary: offset seq result rule: less_induct)
  case less
  show ?case
  proof (cases "offset = length command")
    case True
    then show ?thesis
      by (subst wrap_loop.simps) (simp add: continuation_packets_Nil)
  next
    case False
    define bs where "bs = min c (length command - offset)"
    have bs: "0 < bs" "offset + bs \<le> length command"
      using False less.prems by (simp_all add: bs_def)
    have blk: "(if int (length command) - int offset > int c + 5 - 3 - 2
                then int c + 5 - 3 - 2 else int (length command) - int offset) = int bs"
      using less.prems by (auto simp add: bs_def min_def)
    have sl: "slice command (int offset) (int offset + int bs)
                = Inr (take bs (drop offset command))"
      using slice_take_drop [of offset "offset + bs" command] bs by simp
    have tk: "take c (drop offset command) = take bs (drop offset command)"
      by (simp add: bs_def min_def)
    have dr: "drop (c + offset) command = drop (offset + bs) command"
      by (simp add: bs_def min_def add.commute)
    have ne: "drop offset command \<noteq> []"
      using False less.prems by simp
    have IH: "wrap_loop channel command (int c + 5) ((seq + 1) mod 65536) (int (offset + bs))
                (result @ channel @ [5] @ PutUint16 seq @ take bs (drop offset command))
              = Some (Inr ((result @ channel @ [5] @ PutUint16 seq @ take bs (drop offset command))
                  @ continuation_packets channel c ((seq + 1) mod 65536)
                      (drop (offset + bs) command)))"
      using bs less.prems by (intro less.hyps) simp_all
    show ?thesis
      apply (subst wrap_loop.simps)
      apply (simp only: blk Let_def)
      using False IH
      apply (simp add: sl continuation_packets_Cons [OF ne less.prems(1)] tk dr)
      done
  qed
qed


lemma unwrap_loop_step:
  assumes "int (length result) < responseLength" "offset \<noteq> int (length data)"
    and "slice data offset (offset + 2) = Inr channel"
    and "index data (offset + 2) = Inr 5"
    and "slice data (offset + 3) (offset + 3 + 2) = Inr seqBytes"
    and "int (Uint16 seqBytes) = sequenceIdx'" "sequenceIdx' = sequenceIdx + 1"
    and "(if responseLength - int (length result) > packetSize - 3 - 2
          then packetSize - 3 - 2 else responseLength - int (length result)) = blockSize"
    and "slice data (offset + 5) (offset + 5 + blockSize) = Inr chunk"
  shows "unwrap_loop channel data packetSize responseLength sequenceIdx offset result
           = unwrap_loop channel data packetSize responseLength sequenceIdx'
               (offset + 5 + blockSize) (result @ chunk)"
  by (subst unwrap_loop.simps)
    (simp only: assms Let_def if_True if_False sum.case simp_thms)

lemma unwrap_loop_packets:
  "0 < c \<Longrightarrow> length channel = 2 \<Longrightarrow> seq + length rest \<le> 65535 \<Longrightarrow>
     unwrap_loop channel (pre @ continuation_packets channel c seq rest @ pad) (int c + 5)
         (int (length res + length rest)) (int seq - 1) (int (length pre)) res
       = Inr (res @ rest)"
proof (induction "length rest" arbitrary: rest seq pre res rule: less_induct)
  case less
  show ?case
  proof (cases "rest = []")
    case True
    then show ?thesis
      by (subst unwrap_loop.simps) simp
  next
    case False
    define chunk where "chunk = take c rest"
    define rest' where "rest' = drop c rest"
    define tail where "tail = continuation_packets channel c (seq + 1) rest' @ pad"
    define n where "n = length pre"
    have seq: "seq < 65535" "(seq + 1) mod 65536 = seq + 1"
      using False less.prems(3) by (cases rest; simp)+
    have data: "pre @ continuation_packets channel c seq rest @ pad
                  = pre @ channel @ [5] @ PutUint16 seq @ chunk @ tail"
      by (simp add: continuation_packets_Cons [OF False less.prems(1)] chunk_def rest'_def
          tail_def seq)
    have lc: "length chunk = min c (length rest)" "0 < length chunk"
      using False less.prems(1) by (simp_all add: chunk_def min_def)
    have s1: "slice (pre @ channel @ [5] @ PutUint16 seq @ chunk @ tail) (int n) (int n + 2)
                = Inr channel"
      using slice_app [of pre n channel 2 "[5] @ PutUint16 seq @ chunk @ tail"] less.prems(2)
      by (simp add: n_def)
    have s2: "index (pre @ channel @ [5] @ PutUint16 seq @ chunk @ tail) (int n + 2) = Inr 5"
      using index_app [of "pre @ channel" "n + 2" 5 "PutUint16 seq @ chunk @ tail"] less.prems(2)
      by (simp add: n_def add.commute)
    have s3: "slice (pre @ channel @ [5] @ PutUint16 seq @ chunk @ tail) (int n + 3) (int n + 5)
                = Inr (PutUint16 seq)"
      using slice_app [of "pre @ channel @ [5]" "n + 3" "PutUint16 seq" 2 "chunk @ tail"]
        less.prems(2)
      by (simp add: n_def length_PutUint16 add.commute)
    have s4: "slice (pre @ channel @ [5] @ PutUint16 seq @ chunk @ tail) (int n + 5)
                (int n + 5 + int (length chunk)) = Inr chunk"
      using slice_app [of "pre @ channel @ [5] @ PutUint16 seq" "n + 5" chunk
          "length chunk" tail] less.prems(2)
      by (simp add: n_def length_PutUint16 add.commute)
    have e5: "int n + 3 + 2 = int n + 5"
      by arith
    have s3': "slice (pre @ channel @ [5] @ PutUint16 seq @ chunk @ tail) (int n + 3)
                 (int n + 3 + 2) = Inr (PutUint16 seq)"
      unfolding e5 by (rule s3)
    have blk: "(if int (length res + length rest) - int (length res) > int c + 5 - 3 - 2
                then int c + 5 - 3 - 2
                else int (length res + length rest) - int (length res)) = int (length chunk)"
      by (auto simp add: lc min_def)
    have len: "int n \<noteq> int (length (pre @ channel @ [5] @ PutUint16 seq @ chunk @ tail))"
      by (simp add: n_def)
    have lr: "length rest' < length rest" "length chunk + length rest' = length rest"
      using False less.prems(1) by (simp_all add: rest'_def chunk_def min_def)
    have IH: "unwrap_loop channel
                ((pre @ channel @ [5] @ PutUint16 seq @ chunk)
                   @ continuation_packets channel c (seq + 1) rest' @ pad)
                (int c + 5) (int (length (res @ chunk) + length rest')) (int (seq + 1) - 1)
                (int (length (pre @ channel @ [5] @ PutUint16 seq @ chunk))) (res @ chunk)
              = Inr ((res @ chunk) @ rest')"
      using lr less.prems by (intro less.hyps) simp_all
    have eq1: "int (length (res @ chunk) + length rest') = int (length res + length rest)"
      using lr by simp
    have eq2: "int (length (pre @ channel @ [5] @ PutUint16 seq @ chunk))
                = int n + 5 + int (length chunk)"
      using less.prems(2) by (simp add: n_def length_PutUint16)
    have eq3: "(res @ chunk) @ rest' = res @ rest"
      by (simp add: chunk_def rest'_def)
    note IH' = IH [unfolded eq1 eq2 eq3]
    have lt: "int (length res) < int (length res + length rest)"
      using False by simp
    have "unwrap_loop channel (pre @ channel @ [5] @ PutUint16 seq @ chunk @ tail) (int c + 5)
            (int (length res + length rest)) (int seq - 1) (int n) res
          = unwrap_loop channel (pre @ channel @ [5] @ PutUint16 seq @ chunk @ tail) (int c + 5)
              (int (length res + length rest)) (int seq) (int n + 5 + int (length chunk))
              (res @ chunk)"
      using lt len s1 s2 s3' _ _ blk s4
    proof (rule unwrap_loop_step)
      show "int (Uint16 (PutUint16 seq)) = int seq"
        using seq by (simp add: Uint16_PutUint16)
      show "int seq = int seq - 1 + 1" by simp
    qed
    also have "\<dots> = Inr (res @ rest)"
      using IH' by (simp add: tail_def)
    finally show ?thesis
      unfolding data n_def .
  qed
qed


lemma go_rem_pos: "0 \<le> a \<Longrightarrow> 0 < b \<Longrightarrow> go_rem a b = Some (a mod b)"
proof -
  assume a: "0 \<le> a" and b: "0 < b"
  have m: "a - b * (a div b) = a mod b"
    by (rule minus_mult_div_eq_mod)
  show ?thesis
  proof (cases "a = 0")
    case True
    with b show ?thesis by (simp add: go_rem_def)
  next
    case False
    with a have "0 < a" by simp
    with b have "sgn a = 1" "sgn b = 1" "\<bar>a\<bar> = a" "\<bar>b\<bar> = b" by simp_all
    with b m show ?thesis unfolding go_rem_def by (simp del: minus_mult_div_eq_mod)
  qed
qed

lemma pad_loop_least:
  "0 < ps \<Longrightarrow> (int (length result) + int k) mod ps = 0 \<Longrightarrow>
   (\<forall>j<k. (int (length result) + int j) mod ps \<noteq> 0) \<Longrightarrow>
     pad_loop result ps = Some (Inr (result @ replicate k 0))"
proof (induction k arbitrary: result)
  case 0
  then have "go_rem (int (length result)) ps = Some 0"
    by (simp add: go_rem_pos)
  then show ?case
    by (subst pad_loop.simps) simp
next
  case (Suc k)
  from Suc.prems(3) [rule_format, of 0] have "int (length result) mod ps \<noteq> 0"
    by simp
  then have gr: "go_rem (int (length result)) ps = Some (int (length result) mod ps)"
    "int (length result) mod ps \<noteq> 0"
    using Suc.prems(1) by (simp_all add: go_rem_pos)
  have e: "int (length (result @ [0::byte])) + int j = int (length result) + int (Suc j)" for j
    by simp
  have "pad_loop (result @ [0]) ps = Some (Inr ((result @ [0]) @ replicate k 0))"
  proof (rule Suc.IH [OF Suc.prems(1)])
    show "(int (length (result @ [0::byte])) + int k) mod ps = 0"
      unfolding e by (rule Suc.prems(2))
    show "\<forall>j<k. (int (length (result @ [0::byte])) + int j) mod ps \<noteq> 0"
      unfolding e
    proof (intro allI impI)
      fix j assume "j < k"
      then have "Suc j < Suc k" by simp
      from Suc.prems(3) [rule_format, OF this]
      show "(int (length result) + int (Suc j)) mod ps \<noteq> 0" .
    qed
  qed
  then show ?case
    using gr by (subst pad_loop.simps) (simp add: replicate_app_Cons_same)
qed

lemma pad_loop_pads:
  assumes "0 < ps"
  shows "\<exists>k. pad_loop result ps = Some (Inr (result @ replicate k 0))
           \<and> (int (length result) + int k) mod ps = 0"
proof -
  define a where "a = int (length result)"
  define P where "P k = ((a + int k) mod ps = 0)" for k
  have "0 < ps - a mod ps"
    using assms by simp
  then have e1: "int (nat (ps - a mod ps)) = ps - a mod ps"
    by simp
  have e2: "a - a mod ps = ps * (a div ps)"
    by (rule minus_mod_eq_mult_div)
  have "a + (ps - a mod ps) = (a - a mod ps) + ps"
    by arith
  also have "\<dots> = ps * (a div ps) + ps"
    by (simp only: e2)
  also have "\<dots> = ps * (a div ps + 1)"
    by (simp add: distrib_left)
  finally have "a + int (nat (ps - a mod ps)) = ps * (a div ps + 1)"
    by (simp only: e1)
  then have "P (nat (ps - a mod ps))"
    unfolding P_def by simp
  then obtain k where k: "P k" "\<forall>j<k. \<not> P j"
    using exists_least_iff [of P] by blast
  have p1: "pad_loop result ps = Some (Inr (result @ replicate k 0))"
  proof (rule pad_loop_least [OF assms])
    show "(int (length result) + int k) mod ps = 0"
      using k(1) unfolding P_def a_def .
    show "\<forall>j<k. (int (length result) + int j) mod ps \<noteq> 0"
      using k(2) unfolding P_def a_def .
  qed
  have p2: "(int (length result) + int k) mod ps = 0"
    using k(1) unfolding P_def a_def .
  show ?thesis
    by (rule exI [of _ k]) (rule conjI [OF p1 p2])
qed

lemma length_continuation_packets:
  "0 < c \<Longrightarrow> length rest \<le> length (continuation_packets channel c seq rest)"
proof (induction "length rest" arbitrary: rest seq rule: less_induct)
  case less
  show ?case
  proof (cases "rest = []")
    case True
    then show ?thesis by simp
  next
    case False
    then have "length (drop c rest) < length rest"
      using less.prems by simp
    from less.hyps [OF this less.prems, of "(seq + 1) mod 65536"] show ?thesis
      by (simp add: continuation_packets_Cons [OF False less.prems])
  qed
qed

lemma wrapCommandAPDU_run:
  assumes "\<not> packetSize < 3"
    and "(if int (length command) > packetSize - 5 - 2
          then packetSize - 5 - 2 else int (length command)) = blockSize"
    and "slice command 0 (0 + blockSize) = Inr chunk"
    and "wrap_loop channel command packetSize 1 (0 + blockSize)
           ((channel @ [5] @ PutUint16 0 @ PutUint16 (length command mod 65536)) @ chunk)
         = Some (Inr result1)"
    and "pad_loop result1 packetSize = Some (Inr frame)"
  shows "wrapCommandAPDU channel command packetSize = Some (Inr frame)"
  unfolding wrapCommandAPDU_def
  by (simp only: assms Let_def if_False sum.case option.case)

lemma unwrapResponseAPDU_run:
  assumes "\<not> (length data = 0 \<or> int (length data) < 5 + 2 + 5)"
    and "slice data 0 2 = Inr channel"
    and "index data 2 = Inr 5"
    and "slice data 3 5 = Inr seqBytes" "int (Uint16 seqBytes) = 0"
    and "slice data 5 7 = Inr lenBytes" "int (Uint16 lenBytes) = responseLength"
    and "\<not> int (length data) < 5 + 2 + responseLength"
    and "(if responseLength > packetSize - 5 - 2
          then packetSize - 5 - 2 else responseLength) = blockSize"
    and "slice data 7 (7 + blockSize) = Inr result0"
    and "unwrap_loop channel data packetSize responseLength 0 (7 + blockSize) result0
           = Inr result"
    and "int (length result) - 2 = swOffset"
    and "index result swOffset = Inr hi" "index result (swOffset + 1) = Inr lo"
    and "checkFailure (push_bit 8 (uint hi) + uint lo) = None"
  shows "unwrapResponseAPDU channel data packetSize = slice result 0 swOffset"
  unfolding unwrapResponseAPDU_def
  by (simp only: assms Let_def if_False sum.case option.case simp_thms)

lemma multiple_ge:
  fixes x ps :: int
  assumes "0 < x" "x mod ps = 0" "0 < ps"
  shows "ps \<le> x"
proof (rule ccontr)
  assume "\<not> ps \<le> x"
  with assms(1) have "x mod ps = x" by simp
  with assms show False by simp
qed

text \<open>
  C3 (as amended). For every packet size of at least 8, every two-byte channel and
  every payload that with its status word fits the 16-bit length field, such that the
  wrapped frame has at least 12 bytes (the packet size is at least 12, or the payload
  does not fit one packet: \<open>packetSize < len(payload) + 9\<close>), wrapping the payload
  followed by the status word \<open>0x9000\<close> returns a frame, and unwrapping that frame
  returns the payload.
\<close>

theorem framing_round_trip:
  assumes ps: "8 \<le> packetSize"
    and ch: "length channel = 2"
    and len: "length payload + 2 \<le> 65535"
    and big: "12 \<le> packetSize \<or> packetSize < int (length payload) + 9"
  shows "\<exists>frame. wrapCommandAPDU channel (payload @ [0x90, 0]) packetSize = Some (Inr frame)
           \<and> unwrapResponseAPDU channel frame packetSize = Inr payload"
proof -
  define command :: "byte list" where "command = payload @ [0x90, 0]"
  define L where "L = length command"
  define c where "c = nat (packetSize - 5)"
  define b0 where "b0 = min (nat (packetSize - 7)) L"
  define chunk0 where "chunk0 = take b0 command"
  define rest0 where "rest0 = drop b0 command"
  define header where "header = channel @ [5] @ PutUint16 0 @ PutUint16 L"
  define body where "body = (header @ chunk0) @ continuation_packets channel c 1 rest0"
  have psc: "packetSize = int c + 5" "0 < c"
    using ps by (simp_all add: c_def)
  have L: "L = length payload + 2" "L \<le> 65535" "L mod 65536 = L"
    using len by (simp_all add: L_def command_def)
  have b0: "0 < b0" "b0 \<le> L"
    using ps L(1) by (simp_all add: b0_def)
  have lc0: "length chunk0 = b0" "length chunk0 + length rest0 = L" "chunk0 @ rest0 = command"
    using b0 by (simp_all add: chunk0_def rest0_def L_def)
  have lh: "length header = 7"
    using ch by (simp add: header_def length_PutUint16)
  have blk0: "(if int (length command) > packetSize - 5 - 2
               then packetSize - 5 - 2 else int (length command)) = int b0"
    using ps by (auto simp add: b0_def L_def min_def)
  have sl0: "slice command 0 (0 + int b0) = Inr chunk0"
    using slice_take_drop [of 0 b0 command] b0 by (simp add: chunk0_def L_def)
  have wl: "wrap_loop channel command packetSize 1 (0 + int b0)
              ((channel @ [5] @ PutUint16 0 @ PutUint16 (length command mod 65536)) @ chunk0)
            = Some (Inr body)"
    using wrap_loop_packets [of c b0 command channel 1 "header @ chunk0"] psc b0 L
    by (simp add: body_def header_def rest0_def L_def)
  from pad_loop_pads [of packetSize body] ps
  obtain k where k: "pad_loop body packetSize = Some (Inr (body @ replicate k 0))"
    "(int (length body) + int k) mod packetSize = 0"
    by auto
  define frame where "frame = body @ replicate k 0"
  have wrap: "wrapCommandAPDU channel command packetSize = Some (Inr frame)"
  proof (rule wrapCommandAPDU_run [OF _ blk0 sl0 wl])
    show "\<not> packetSize < 3" using ps by simp
    show "pad_loop body packetSize = Some (Inr frame)" using k(1) by (simp add: frame_def)
  qed
  have fr: "frame = (header @ chunk0) @ continuation_packets channel c 1 rest0 @ replicate k 0"
    by (simp add: frame_def body_def)
  have lcp: "length rest0 \<le> length (continuation_packets channel c 1 rest0)"
    by (rule length_continuation_packets [OF psc(2)])
  have lfL: "7 + L \<le> length frame"
    using lcp lc0 lh by (simp add: fr)
  have len12: "12 \<le> length frame"
  proof (cases "rest0 = []")
    case True
    then have "L \<le> nat (packetSize - 7)"
      using b0 lc0 by (simp add: b0_def min_def split: if_splits)
    with big L(1) have "12 \<le> packetSize" by auto
    moreover have "packetSize \<le> int (length frame)"
    proof (rule multiple_ge)
      show "0 < int (length frame)" using lfL by (cases frame) simp_all
      show "int (length frame) mod packetSize = 0" using k(2) by (simp add: frame_def)
      show "0 < packetSize" using ps by simp
    qed
    ultimately show ?thesis by simp
  next
    case False
    obtain x xs where tk: "take c rest0 = x # xs"
      using False psc(2) by (cases rest0; cases c) auto
    have "length (continuation_packets channel c 1 rest0)
            = length channel + 1 + length (PutUint16 1) + length (x # xs)
              + length (continuation_packets channel c ((1 + 1) mod 65536) (drop c rest0))"
      by (subst continuation_packets_Cons [OF False psc(2)]) (simp add: tk)
    then have "6 \<le> length (continuation_packets channel c 1 rest0)"
      using ch by (simp add: length_PutUint16)
    with lh lc0 b0 show ?thesis by (simp add: fr)
  qed
  have a1: "slice frame 0 2 = Inr channel"
    using slice_app [of "[]" 0 channel 2] ch by (simp add: fr header_def)
  have a2: "index frame 2 = Inr 5"
    using index_app [of channel 2 5] ch by (simp add: fr header_def)
  have a3: "slice frame 3 5 = Inr (PutUint16 0)"
    using slice_app [of "channel @ [5]" 3 "PutUint16 0" 2] ch
    by (simp add: fr header_def length_PutUint16)
  have a4: "slice frame 5 7 = Inr (PutUint16 L)"
    using slice_app [of "channel @ [5] @ PutUint16 0" 5 "PutUint16 L" 2] ch
    by (simp add: fr header_def length_PutUint16)
  have a5: "slice frame 7 (7 + int b0) = Inr chunk0"
    using slice_app [of header 7 chunk0 b0] lh lc0 by (simp add: fr)
  have u0: "int (Uint16 (PutUint16 0)) = 0"
    by (simp add: Uint16_PutUint16)
  have uL: "int (Uint16 (PutUint16 L)) = int L"
    using L(2) by (simp add: Uint16_PutUint16)
  have blk: "(if int L > packetSize - 5 - 2 then packetSize - 5 - 2 else int L) = int b0"
    unfolding L_def by (rule blk0)
  have Li: "int b0 + int (length rest0) = int L"
    using lc0 by (simp flip: of_nat_add)
  have ul: "unwrap_loop channel frame packetSize (int L) 0 (7 + int b0) chunk0 = Inr command"
    using unwrap_loop_packets [of c channel 1 rest0 "header @ chunk0" "replicate k 0" chunk0]
      psc ch lc0 lh L(2) b0
    by (simp add: fr Li)
  have i1: "index command (int (length payload)) = Inr 0x90"
    using index_app [of payload "length payload" "0x90" "[0]"] by (simp add: command_def)
  have i2: "index command (int (length payload) + 1) = Inr 0"
    using index_app [of "payload @ [0x90]" "length payload + 1" 0 "[]"]
    by (simp add: command_def add.commute)
  have cf: "checkFailure (push_bit 8 (uint (0x90 :: byte)) + uint (0 :: byte)) = None"
    by (simp add: checkFailure_def)
  have fin: "slice command 0 (int (length payload)) = Inr payload"
    using slice_take_drop [of 0 "length payload" command] by (simp add: command_def)
  have "unwrapResponseAPDU channel frame packetSize = slice command 0 (int (length payload))"
  proof (rule unwrapResponseAPDU_run [OF _ a1 a2 a3 u0 a4 uL _ blk a5 ul _ i1 i2 cf])
    show "\<not> (length frame = 0 \<or> int (length frame) < 5 + 2 + 5)"
      using len12 by (cases frame) simp_all
    show "\<not> int (length frame) < 5 + 2 + int L"
      using lfL by simp
    show "int (length command) - 2 = int (length payload)"
      by (simp add: command_def)
  qed
  with fin wrap show ?thesis
    unfolding command_def by simp
qed

theorem framing_round_trip_witness:
  "(8::int) \<le> 8 \<and> length [1, 1 :: byte] = 2 \<and> length [1, 2, 3 :: byte] + 2 \<le> 65535
   \<and> (12 \<le> (8::int) \<or> (8::int) < int (length [1, 2, 3 :: byte]) + 9)
   \<and> (\<exists>frame. wrapCommandAPDU [1, 1] ([1, 2, 3] @ [0x90, 0]) 8 = Some (Inr frame)
          \<and> unwrapResponseAPDU [1, 1] frame 8 = Inr [1, 2, 3])"
  using framing_round_trip [of 8 "[1, 1]" "[1, 2, 3]"] by simp

text \<open>
  C3 as stated fails: with packet size 9 the empty payload wraps into one packet of
  9 bytes, and \<open>unwrapResponseAPDU\<close> rejects every input shorter than 12 bytes with
  the error \<open>No data\<close>.
\<close>

theorem framing_round_trip_packet_size_9:
  "wrapCommandAPDU [1, 1] ([] @ [0x90, 0]) 9 = Some (Inr [1, 1, 5, 0, 0, 0, 2, 0x90, 0])
   \<and> unwrapResponseAPDU [1, 1] [1, 1, 5, 0, 0, 0, 2, 0x90, 0] 9 = Inl (Error ''No data'')"
  by (simp add: wrapCommandAPDU_def slice_def wrap_loop.simps pad_loop.simps go_rem_def
      PutUint16_def unwrapResponseAPDU_def)

end
